theory Spec2Isabelle
  imports Main "HOL-Library.Multiset" "HOL-Library.AList"
begin

section \<open>Terrain kinds and tile counts\<close>

text \<open>
  \<^verbatim>\<open>TerrainType\<close> is the closed union of eight string literals; \<^verbatim>\<open>TileCount\<close> is the
  interface with one numeric field per terrain kind. The numbers of the source are
  integers here (every constant and every update in the code keeps them integral).
\<close>

datatype TerrainType = Forest | Field | Mountain | Pasture | Hill | Desert | Water | Gold

record TileCount =
  field :: int
  forest :: int
  pasture :: int
  hill :: int
  mountain :: int
  desert :: int
  water :: int
  gold :: int

text \<open>\<^verbatim>\<open>prev[currentTile]\<close>: reading a count by terrain kind.\<close>

fun countOf :: "TileCount \<Rightarrow> TerrainType \<Rightarrow> int" where
  "countOf c Field = field c"
| "countOf c Forest = forest c"
| "countOf c Pasture = pasture c"
| "countOf c Hill = hill c"
| "countOf c Mountain = mountain c"
| "countOf c Desert = desert c"
| "countOf c Water = water c"
| "countOf c Gold = gold c"

text \<open>\<^verbatim>\<open>{ ...prev, [currentTile]: v }\<close>: a copy with one count replaced.\<close>

fun setCount :: "TileCount \<Rightarrow> TerrainType \<Rightarrow> int \<Rightarrow> TileCount" where
  "setCount c Field v = c\<lparr>field := v\<rparr>"
| "setCount c Forest v = c\<lparr>forest := v\<rparr>"
| "setCount c Pasture v = c\<lparr>pasture := v\<rparr>"
| "setCount c Hill v = c\<lparr>hill := v\<rparr>"
| "setCount c Mountain v = c\<lparr>mountain := v\<rparr>"
| "setCount c Desert v = c\<lparr>desert := v\<rparr>"
| "setCount c Water v = c\<lparr>water := v\<rparr>"
| "setCount c Gold v = c\<lparr>gold := v\<rparr>"

text \<open>
  The sum a game mode shows as its tile total:
  \<^verbatim>\<open>Object.values(mode.tileCount).reduce((sum, count) => sum + count, 0)\<close>.
\<close>

definition totalTiles :: "TileCount \<Rightarrow> int" where
  "totalTiles c = field c + forest c + pasture c + hill c + mountain c + desert c + water c + gold c"

text \<open>A structurally well-formed configuration: no count is negative.\<close>

definition wellFormedCounts :: "TileCount \<Rightarrow> bool" where
  "wellFormedCounts c =
     (0 \<le> field c \<and> 0 \<le> forest c \<and> 0 \<le> pasture c \<and> 0 \<le> hill c \<and>
      0 \<le> mountain c \<and> 0 \<le> desert c \<and> 0 \<le> water c \<and> 0 \<le> gold c)"

text \<open>The tile counts of the base game mode (\<^verbatim>\<open>base-3-4\<close>).\<close>

definition classicCounts :: TileCount where
  "classicCounts = \<lparr>field = 4, forest = 4, pasture = 4, hill = 3, mountain = 3,
                     desert = 1, water = 0, gold = 0\<rparr>"

section \<open>Randomness\<close>

text \<open>
  \<^verbatim>\<open>Math.random()\<close> is a parameter of the model: a stream \<open>draw rs\<close> of raw draws, read at
  the position \<open>n\<close> that the state carries. \<^verbatim>\<open>Math.floor(Math.random() * b)\<close> is some
  index below \<open>b\<close> when \<open>b\<close> is positive; it is \<open>draw rs n mod b\<close> here, and ranging
  over all streams covers every outcome of the source. The order that
  \<^verbatim>\<open>sort(() => Math.random() - 0.5)\<close> leaves a list in depends on the engine's sorting
  algorithm; it is the second parameter, \<open>sortOrder rs\<close>, and nothing is assumed of it.
\<close>

record RandomSource =
  draw :: "nat \<Rightarrow> nat"
  sortOrder :: "int list \<Rightarrow> int list"

definition randomIndex :: "RandomSource \<Rightarrow> nat \<Rightarrow> nat \<Rightarrow> nat" where
  "randomIndex rs n b = draw rs n mod b"

section \<open>The tile queue (useTileQueue)\<close>

text \<open>\<^verbatim>\<open>for (let i = 0; i < c; i++) bag.push(t)\<close>\<close>

function pushLoop :: "int \<Rightarrow> int \<Rightarrow> TerrainType \<Rightarrow> TerrainType list \<Rightarrow> TerrainType list" where
  "pushLoop i c t bag = (if i < c then pushLoop (i + 1) c t (bag @ [t]) else bag)"
  by pat_completeness auto
termination
  by (relation "measure (\<lambda>(i, c, t, bag). nat (c - i))") auto

declare pushLoop.simps [simp del]

text \<open>The eight push loops of \<^verbatim>\<open>generateTileBag\<close>, in the order of the source.\<close>

definition expandCounts :: "TileCount \<Rightarrow> TerrainType list" where
  "expandCounts counts =
     (let bag = pushLoop 0 (field counts) Field [];
          bag = pushLoop 0 (forest counts) Forest bag;
          bag = pushLoop 0 (pasture counts) Pasture bag;
          bag = pushLoop 0 (hill counts) Hill bag;
          bag = pushLoop 0 (mountain counts) Mountain bag;
          bag = pushLoop 0 (desert counts) Desert bag;
          bag = pushLoop 0 (water counts) Water bag;
          bag = pushLoop 0 (gold counts) Gold bag
      in bag)"

text \<open>
  \<^verbatim>\<open>[bag[i], bag[j]] = [bag[j], bag[i]]\<close>: both reads happen before both writes.
\<close>

definition swap :: "nat \<Rightarrow> nat \<Rightarrow> 'a list \<Rightarrow> 'a list" where
  "swap i j bag = bag[i := bag ! j, j := bag ! i]"

text \<open>
  \<^verbatim>\<open>for (let i = bag.length - 1; i > 0; i--) { const j = Math.floor(Math.random() * (i + 1)); swap }\<close>
  The loop variable is the first numeric argument; the loop stops at \<open>i = 0\<close>.
\<close>

fun shuffleLoop :: "RandomSource \<Rightarrow> nat \<Rightarrow> nat \<Rightarrow> 'a list \<Rightarrow> nat \<times> 'a list" where
  "shuffleLoop rs n 0 bag = (n, bag)"
| "shuffleLoop rs n (Suc k) bag =
     (let i = Suc k; j = randomIndex rs n (i + 1)
      in shuffleLoop rs (Suc n) k (swap i j bag))"

definition generateTileBag :: "RandomSource \<Rightarrow> nat \<Rightarrow> TileCount \<Rightarrow> nat \<times> TerrainType list" where
  "generateTileBag rs n counts =
     (let bag = expandCounts counts in shuffleLoop rs n (length bag - 1) bag)"

record TileQueue =
  tileQueue :: "TerrainType list"
  currentTile :: "TerrainType option"
  nextTile :: "TerrainType option"
  remainingTiles :: TileCount

definition zeroCounts :: TileCount where
  "zeroCounts = \<lparr>field = 0, forest = 0, pasture = 0, hill = 0, mountain = 0,
                  desert = 0, water = 0, gold = 0\<rparr>"

definition resetQueue :: TileQueue where
  "resetQueue = \<lparr>tileQueue = [], currentTile = None, nextTile = None,
                  remainingTiles = zeroCounts\<rparr>"

text \<open>
  The effect that runs when \<^verbatim>\<open>isPlaying\<close> becomes true: a new bag, the remaining counts
  copied from the configuration, and the current and next tile read from the front of a
  non-empty bag (left as they were for an empty one).
\<close>

definition initQueue :: "RandomSource \<Rightarrow> nat \<Rightarrow> TileCount \<Rightarrow> TileQueue \<Rightarrow> nat \<times> TileQueue" where
  "initQueue rs n counts tq =
     (let (n', newBag) = generateTileBag rs n counts;
          tq1 = tq\<lparr>tileQueue := newBag, remainingTiles := counts\<rparr>
      in (n', if length newBag > 0
              then tq1\<lparr>currentTile := Some (newBag ! 0),
                       nextTile := (if length newBag > 1 then Some (newBag ! 1) else None)\<rparr>
              else tq1))"

text \<open>
  \<^verbatim>\<open>getNextTile\<close>: the returned value and the queue state after the call. With at most
  one tile queued it returns null before any setter runs.
\<close>

definition getNextTile :: "TileQueue \<Rightarrow> TerrainType option \<times> TileQueue" where
  "getNextTile tq =
     (if length (tileQueue tq) \<le> 1 then (None, tq)
      else
        let newQueue = tl (tileQueue tq);
            newCurrent = tileQueue tq ! 1;
            newNext = (if length newQueue > 1 then Some (newQueue ! 1) else None);
            newRemaining =
              (case currentTile tq of
                 None \<Rightarrow> remainingTiles tq
               | Some c \<Rightarrow> setCount (remainingTiles tq) c
                             (max 0 (countOf (remainingTiles tq) c - 1)))
        in (Some newCurrent,
            \<lparr>tileQueue = newQueue, currentTile = Some newCurrent, nextTile = newNext,
             remainingTiles = newRemaining\<rparr>))"

definition hasMoreTiles :: "TileQueue \<Rightarrow> bool" where
  "hasMoreTiles tq = (length (tileQueue tq) > 1)"

section \<open>The board layout\<close>

text \<open>
  A \<^verbatim>\<open>Hex\<close> object. Of its optional fields the game logic reads \<^verbatim>\<open>terrain\<close> and
  \<^verbatim>\<open>isWater\<close> only; an absent \<^verbatim>\<open>isWater\<close> is falsy, so it is \<open>False\<close> here.
\<close>

record Hex =
  q :: int
  r :: int
  terrain :: "TerrainType option"
  isWater :: bool

text \<open>\<^verbatim>\<open>{ ...hex, terrain: undefined }\<close> for a land coordinate.\<close>

definition landHex :: "int \<Rightarrow> int \<Rightarrow> Hex" where
  "landHex a b = \<lparr>q = a, r = b, terrain = None, isWater = False\<rparr>"

definition classicLandHexes :: "(int \<times> int) list" where
  "classicLandHexes =
     [(0, 0),
      (1, 0), (1, -1), (0, -1),
      (-1, 0), (-1, 1), (0, 1),
      (2, 0), (2, -1), (2, -2),
      (1, -2), (0, -2), (-1, -1),
      (-2, 0), (-2, 1), (-2, 2),
      (-1, 2), (0, 2), (1, 1)]"

text \<open>
  \<^verbatim>\<open>generateCatanBoard\<close> (its parameter \<^verbatim>\<open>size\<close> is \<open>sz\<close> here). The nested
  \<^verbatim>\<open>for\<close> loops run over the integer ranges \<open>[lo..hi]\<close> in increasing order and push in
  that order.
\<close>

definition generateCatanBoard :: "int \<Rightarrow> Hex list" where
  "generateCatanBoard sz =
     (if sz = 2 then map (\<lambda>(a, b). landHex a b) classicLandHexes
      else if sz = 3 then
        concat (map (\<lambda>a. map (\<lambda>b. landHex a b)
                        (filter (\<lambda>b. \<bar>a\<bar> \<le> 3 \<and> \<bar>b\<bar> \<le> 3 \<and> \<bar>- a - b\<bar> \<le> 3)
                                [max (- 3) (- a - 3) .. min 3 (- a + 3)]))
                    [- 3 .. 3])
      else if sz = 4 then
        concat (map (\<lambda>a. map (\<lambda>b. landHex a b)
                        (filter (\<lambda>b. \<bar>a\<bar> \<le> 4 \<and> \<bar>b\<bar> \<le> 4 \<and> \<bar>- a - b\<bar> \<le> 4)
                                [max (- 4) (- a - 4) .. min 4 (- a + 4)]))
                    [- 4 .. 4])
      else
        concat (map (\<lambda>a. map (\<lambda>b. landHex a b)
                        (filter (\<lambda>b. max (max \<bar>a\<bar> \<bar>b\<bar>) \<bar>- a - b\<bar> \<le> sz)
                                [max (- sz) (- a - sz) .. min sz (- a + sz)]))
                    [- sz .. sz]))"

text \<open>\<^verbatim>\<open>isValidPosition\<close>: the first hex with these coordinates exists and is not water.\<close>

definition isValidPosition :: "Hex list \<Rightarrow> int \<Rightarrow> int \<Rightarrow> bool" where
  "isValidPosition hexes a b =
     (case find (\<lambda>h. q h = a \<and> r h = b) hexes of
        None \<Rightarrow> False
      | Some hex \<Rightarrow> \<not> isWater hex)"

text \<open>\<^verbatim>\<open>Math.min(...xs)\<close>; \<open>None\<close> stands for the \<^verbatim>\<open>Infinity\<close> of an empty argument list.\<close>

fun mathMin :: "int list \<Rightarrow> int option" where
  "mathMin [] = None"
| "mathMin (x # xs) = (case mathMin xs of None \<Rightarrow> Some x | Some m \<Rightarrow> Some (min x m))"

text \<open>The elements of a \<^verbatim>\<open>Set\<close> built from a list, in insertion order.\<close>

fun setFrom :: "'a list \<Rightarrow> 'a list \<Rightarrow> 'a list" where
  "setFrom acc [] = acc"
| "setFrom acc (x # xs) = setFrom (if x \<in> set acc then acc else acc @ [x]) xs"

definition getValidSpawnPositions :: "Hex list \<Rightarrow> (int \<times> int) list" where
  "getValidSpawnPositions hexes =
     (let landHexes = filter (\<lambda>h. \<not> isWater h) hexes;
          topRow = mathMin (map r landHexes);
          validColumns = setFrom [] (map q landHexes)
      in case topRow of
           None \<Rightarrow> []
         | Some t \<Rightarrow> map (\<lambda>a. (a, t - 2)) validColumns)"

text \<open>
  The land hexes of one column, top to bottom:
  \<^verbatim>\<open>landHexes.filter(h => h.q === col).sort((a, b) => a.r - b.r)\<close> (a stable sort).
\<close>

definition columnHexes :: "Hex list \<Rightarrow> int \<Rightarrow> Hex list" where
  "columnHexes hexes col =
     sort_key r (filter (\<lambda>h. q h = col) (filter (\<lambda>h. \<not> isWater h) hexes))"

section \<open>The board state\<close>

text \<open>
  \<^verbatim>\<open>board\<close> is a \<^verbatim>\<open>Map<string, Hex>\<close> keyed by \<^verbatim>\<open>`${q},${r}`\<close>. Distinct integer pairs
  give distinct key strings, so the key is the pair itself. A \<^verbatim>\<open>Map\<close> iterates in
  insertion order and \<^verbatim>\<open>set\<close> on a present key keeps its place: the map is an
  association list, \<^verbatim>\<open>set\<close> is \<^const>\<open>AList.update\<close> and \<^verbatim>\<open>get\<close> is \<^const>\<open>map_of\<close>.
\<close>

type_synonym Key = "int \<times> int"
type_synonym Board = "(Key \<times> Hex) list"
type_synonym Numbers = "(Key \<times> int) list"

text \<open>\<^verbatim>\<open>board.has(key) && board.get(key)?.terrain\<close>\<close>

definition occupied :: "Board \<Rightarrow> Key \<Rightarrow> bool" where
  "occupied b k = (case map_of b k of None \<Rightarrow> False | Some hex \<Rightarrow> terrain hex \<noteq> None)"

section \<open>Number assignment\<close>

text \<open>An entry \<^verbatim>\<open>{ key, q, r }\<close> of \<^verbatim>\<open>numberTiles\<close>.\<close>

type_synonym NumberTile = "Key \<times> int \<times> int"

definition tileKey :: "NumberTile \<Rightarrow> Key" where
  "tileKey t = fst t"

text \<open>
  \<^verbatim>\<open>hex.terrain && hex.terrain !== 'desert' && hex.terrain !== 'water'\<close>
\<close>

definition getsNumber :: "Hex \<Rightarrow> bool" where
  "getsNumber hex =
     (case terrain hex of None \<Rightarrow> False | Some t \<Rightarrow> t \<noteq> Desert \<and> t \<noteq> Water)"

definition collectNumberTiles :: "Board \<Rightarrow> NumberTile list" where
  "collectNumberTiles newBoard =
     map (\<lambda>(hexKey, hex). (hexKey, q hex, r hex)) (filter (\<lambda>(hexKey, hex). getsNumber hex) newBoard)"

definition classicNumbers :: "int list" where
  "classicNumbers = [2, 3, 3, 4, 4, 5, 5, 6, 6, 8, 8, 9, 9, 10, 10, 11, 11, 12]"

definition baseNumbers :: "int list" where
  "baseNumbers = [2, 3, 3, 4, 4, 4, 5, 5, 5, 6, 6, 8, 8, 9, 9, 9, 10, 10, 10, 11, 11, 11, 12]"

definition additionalNumbers :: "int list" where
  "additionalNumbers = [3, 4, 5, 6, 8, 9, 10, 11]"

definition fallbackNumbers :: "int list" where
  "fallbackNumbers = [3, 4, 5, 9, 10, 11]"

text \<open>
  \<^verbatim>\<open>for (const num of additionalNumbers) if (numberDistribution.length < numbersNeeded) push(num)\<close>
\<close>

fun pushAdditional :: "nat \<Rightarrow> int list \<Rightarrow> int list \<Rightarrow> int list" where
  "pushAdditional numbersNeeded [] dist = dist"
| "pushAdditional numbersNeeded (num # nums) dist =
     pushAdditional numbersNeeded nums
       (if length dist < numbersNeeded then dist @ [num] else dist)"

lemma length_pushAdditional:
  "length dist \<le> length (pushAdditional numbersNeeded nums dist)"
proof (induction nums arbitrary: dist)
  case Nil
  show ?case by simp
next
  case (Cons num nums)
  have "length dist \<le> length (if length dist < numbersNeeded then dist @ [num] else dist)"
    by simp
  also have "\<dots> \<le> length (pushAdditional numbersNeeded (num # nums) dist)"
    using Cons.IH by simp
  finally show ?case .
qed

lemma pushAdditional_grows:
  assumes "length dist < numbersNeeded"
  shows "length dist < length (pushAdditional numbersNeeded additionalNumbers dist)"
proof -
  have "pushAdditional numbersNeeded additionalNumbers dist =
        pushAdditional numbersNeeded (tl additionalNumbers) (dist @ [3])"
    using assms by (simp add: additionalNumbers_def)
  moreover have "length (dist @ [3]) \<le>
        length (pushAdditional numbersNeeded (tl additionalNumbers) (dist @ [3]))"
    by (rule length_pushAdditional)
  ultimately show ?thesis by simp
qed

text \<open>\<^verbatim>\<open>while (numberDistribution.length < numbersNeeded) { ... }\<close>\<close>

function extendDistribution :: "nat \<Rightarrow> int list \<Rightarrow> int list" where
  "extendDistribution numbersNeeded dist =
     (if length dist < numbersNeeded
      then extendDistribution numbersNeeded (pushAdditional numbersNeeded additionalNumbers dist)
      else dist)"
  by pat_completeness auto
termination
proof (relation "measure (\<lambda>(numbersNeeded, dist). numbersNeeded - length dist)")
  show "wf (measure (\<lambda>(numbersNeeded, dist). numbersNeeded - length dist))"
    by simp
next
  fix numbersNeeded :: nat and dist :: "int list"
  assume "length dist < numbersNeeded"
  then show "((numbersNeeded, pushAdditional numbersNeeded additionalNumbers dist),
              (numbersNeeded, dist))
             \<in> measure (\<lambda>(numbersNeeded, dist). numbersNeeded - length dist)"
    using pushAdditional_grows [of dist numbersNeeded] by simp
qed

declare extendDistribution.simps [simp del]

text \<open>
  The distribution for a map size, cut to the number of tiles that need a number
  (\<^verbatim>\<open>slice(0, numbersNeeded)\<close>).
\<close>

definition numberDistribution :: "int \<Rightarrow> nat \<Rightarrow> int list" where
  "numberDistribution mapSize numbersNeeded =
     take numbersNeeded
       (if mapSize = 2 then classicNumbers
        else extendDistribution numbersNeeded baseNumbers)"

definition getAdjacentHexes :: "int \<Rightarrow> int \<Rightarrow> Key list" where
  "getAdjacentHexes a b =
     [(a + 1, b), (a - 1, b), (a, b + 1), (a, b - 1), (a + 1, b - 1), (a - 1, b + 1)]"

text \<open>
  \<^verbatim>\<open>isValidPlacement\<close>: a 6 or an 8 may not go next to a placed 6 or 8. The loop over
  the neighbours returns false at the first neighbour holding a 6 or an 8.
\<close>

definition isHot :: "int option \<Rightarrow> bool" where
  "isHot adjNumber = (adjNumber = Some 6 \<or> adjNumber = Some 8)"

definition isValidPlacement :: "NumberTile list \<Rightarrow> Key \<Rightarrow> int \<Rightarrow> Numbers \<Rightarrow> bool" where
  "isValidPlacement numberTiles k number placedNumbers =
     (if number \<noteq> 6 \<and> number \<noteq> 8 then True
      else case find (\<lambda>t. tileKey t = k) numberTiles of
             None \<Rightarrow> False
           | Some (_, a, b) \<Rightarrow>
               list_all (\<lambda>adjKey. \<not> isHot (map_of placedNumbers adjKey)) (getAdjacentHexes a b))"

text \<open>What a callback of the source can throw.\<close>

datatype error = TypeError

text \<open>\<^verbatim>\<open>availableTiles.splice(randomIndex, 1)\<close>\<close>

definition splice1 :: "nat \<Rightarrow> 'a list \<Rightarrow> 'a list" where
  "splice1 i xs = take i xs @ drop (Suc i) xs"

text \<open>
  The attempts loop for one 6 or 8:
  \<^verbatim>\<open>for (let attempts = 0; attempts < 100 && !placed; attempts++)\<close>. The first argument
  counts the attempts that are left. With no tile available \<^verbatim>\<open>availableTiles[0]\<close> is
  undefined and reading its \<^verbatim>\<open>key\<close> throws. The result is \<^verbatim>\<open>placed\<close>, the position in
  the random stream, \<^verbatim>\<open>newNumbers\<close> and \<^verbatim>\<open>availableTiles\<close>.
\<close>

fun tryPlace ::
  "nat \<Rightarrow> RandomSource \<Rightarrow> NumberTile list \<Rightarrow> int \<Rightarrow> nat \<Rightarrow> Numbers \<Rightarrow> NumberTile list
   \<Rightarrow> error + (bool \<times> nat \<times> Numbers \<times> NumberTile list)" where
  "tryPlace 0 rs numberTiles number n newNumbers availableTiles =
     Inr (False, n, newNumbers, availableTiles)"
| "tryPlace (Suc left) rs numberTiles number n newNumbers availableTiles =
     (if availableTiles = [] then Inl TypeError
      else
        let i = randomIndex rs n (length availableTiles);
            tile = availableTiles ! i
        in if isValidPlacement numberTiles (tileKey tile) number newNumbers
           then Inr (True, Suc n, AList.update (tileKey tile) number newNumbers,
                     splice1 i availableTiles)
           else tryPlace left rs numberTiles number (Suc n) newNumbers availableTiles)"

text \<open>
  \<^verbatim>\<open>for (const number of highProbNumbers)\<close>: the attempts, then the first available
  tile (\<^verbatim>\<open>shift\<close>) when none of them placed the number.
\<close>

fun placeHigh ::
  "RandomSource \<Rightarrow> NumberTile list \<Rightarrow> int list \<Rightarrow> nat \<Rightarrow> Numbers \<Rightarrow> NumberTile list
   \<Rightarrow> error + (nat \<times> Numbers \<times> NumberTile list)" where
  "placeHigh rs numberTiles [] n newNumbers availableTiles =
     Inr (n, newNumbers, availableTiles)"
| "placeHigh rs numberTiles (number # rest) n newNumbers availableTiles =
     (case tryPlace 100 rs numberTiles number n newNumbers availableTiles of
        Inl e \<Rightarrow> Inl e
      | Inr (placed, n', newNumbers', availableTiles') \<Rightarrow>
          if \<not> placed \<and> length availableTiles' > 0
          then placeHigh rs numberTiles rest n'
                 (AList.update (tileKey (hd availableTiles')) number newNumbers')
                 (tl availableTiles')
          else placeHigh rs numberTiles rest n' newNumbers' availableTiles')"

text \<open>
  \<^verbatim>\<open>for (let i = 0; i < availableTiles.length && i < shuffledOthers.length; i++)\<close>
\<close>

fun placeOthers :: "NumberTile list \<Rightarrow> int list \<Rightarrow> Numbers \<Rightarrow> Numbers" where
  "placeOthers (tile # tiles) (number # numbers) newNumbers =
     placeOthers tiles numbers (AList.update (tileKey tile) number newNumbers)"
| "placeOthers _ _ newNumbers = newNumbers"

text \<open>
  The safety pass over \<^verbatim>\<open>numberTiles\<close>: a tile without a number takes a random one of
  the numbers used less often than the distribution holds them, or a random fallback
  number.
\<close>

definition remainingNumbers :: "int list \<Rightarrow> Numbers \<Rightarrow> int list" where
  "remainingNumbers dist newNumbers =
     (let usedNumbers = map snd newNumbers
      in filter (\<lambda>num. length (filter (\<lambda>n. n = num) usedNumbers)
                         < length (filter (\<lambda>n. n = num) dist)) dist)"

fun safetyPass ::
  "RandomSource \<Rightarrow> int list \<Rightarrow> NumberTile list \<Rightarrow> nat \<Rightarrow> Numbers \<Rightarrow> nat \<times> Numbers" where
  "safetyPass rs dist [] n newNumbers = (n, newNumbers)"
| "safetyPass rs dist (tile # tiles) n newNumbers =
     (if map_of newNumbers (tileKey tile) \<noteq> None then safetyPass rs dist tiles n newNumbers
      else
        let remaining = remainingNumbers dist newNumbers
        in if length remaining > 0
           then safetyPass rs dist tiles (Suc n)
                  (AList.update (tileKey tile)
                     (remaining ! randomIndex rs n (length remaining)) newNumbers)
           else safetyPass rs dist tiles (Suc n)
                  (AList.update (tileKey tile)
                     (fallbackNumbers ! randomIndex rs n (length fallbackNumbers)) newNumbers))"

text \<open>
  The whole number generation that \<^verbatim>\<open>placeTile\<close> schedules after the last tile: from
  the board that holds the last tile to \<^verbatim>\<open>newNumbers\<close>.
\<close>

definition assignNumbers ::
  "int \<Rightarrow> RandomSource \<Rightarrow> nat \<Rightarrow> Board \<Rightarrow> error + (nat \<times> Numbers)" where
  "assignNumbers mapSize rs n newBoard =
     (let numberTiles = collectNumberTiles newBoard;
          numbersNeeded = length numberTiles;
          dist = numberDistribution mapSize numbersNeeded;
          highProbNumbers = filter (\<lambda>x. x = 6 \<or> x = 8) dist;
          otherNumbers = filter (\<lambda>x. x \<noteq> 6 \<and> x \<noteq> 8) dist
      in case placeHigh rs numberTiles highProbNumbers n [] numberTiles of
           Inl e \<Rightarrow> Inl e
         | Inr (n1, newNumbers1, availableTiles) \<Rightarrow>
             let shuffledOthers = sortOrder rs otherNumbers;
                 newNumbers2 = placeOthers availableTiles shuffledOthers newNumbers1
             in Inr (safetyPass rs dist numberTiles n1 newNumbers2))"

section \<open>The game board component\<close>

text \<open>
  The props of \<^verbatim>\<open>GameBoard\<close> that the game logic reads. Its state is kept together
  with the state of the tile queue hook, the position in the random stream, the two flags
  of the parent component (\<^verbatim>\<open>isPlaying\<close> and \<^verbatim>\<open>isPaused\<close> of \<^verbatim>\<open>TetrisCatanGame\<close>) and the
  timeouts that are pending. The tile position \<^verbatim>\<open>{ q, r }\<close> is a pair.

  A pending \<^verbatim>\<open>setTimeout(spawnNewTile, 200)\<close> is the pair of \<^verbatim>\<open>isPlaying\<close> and
  \<^verbatim>\<open>hasMoreTiles\<close> that the callback's closure captured; a pending number generation is
  the board it captured. Timeouts of one kind have one delay, so they fire in the order
  in which they were started; they are never cancelled.
\<close>

record Props =
  mapSize :: int
  isPlaying :: bool
  tileCount :: TileCount

record GameState =
  board :: Board
  tilePosition :: "int \<times> int"
  tileRotation :: int
  dropSpeed :: int
  showFinalBoard :: bool
  boardNumbers :: Numbers
  queue :: TileQueue
  rndIdx :: nat
  playing :: bool
  paused :: bool
  spawnTimers :: "(bool \<times> bool) list"
  numberTimers :: "Board list"

text \<open>
  The props of a render. The parent passes the map size and the tile count of the
  selected mode as they are, and \<^verbatim>\<open>isPlaying={isPlaying && !isPaused}\<close>: a session is
  given by props \<open>p\<close> whose \<^verbatim>\<open>isPlaying\<close> field is set from the parent's flags at every
  render.
\<close>

definition renderProps :: "Props \<Rightarrow> GameState \<Rightarrow> Props" where
  "renderProps p s = p\<lparr>isPlaying := playing s \<and> \<not> paused s\<rparr>"

text \<open>\<^verbatim>\<open>const hexes = generateCatanBoard(mapSize)\<close>\<close>

definition hexesOf :: "Props \<Rightarrow> Hex list" where
  "hexesOf p = generateCatanBoard (mapSize p)"

text \<open>
  \<^verbatim>\<open>spawnNewTile\<close>. The callback reads \<^verbatim>\<open>isPlaying\<close> and \<^verbatim>\<open>hasMoreTiles\<close> as its closure
  captured them: \<open>p\<close> are the props of the render that created the callback, and
  \<open>captured\<close> is \<^verbatim>\<open>hasMoreTiles\<close> of that render.
\<close>

definition spawnNewTile :: "Props \<Rightarrow> RandomSource \<Rightarrow> bool \<Rightarrow> GameState \<Rightarrow> GameState" where
  "spawnNewTile p rs captured s =
     (if \<not> isPlaying p \<or> \<not> captured then s
      else
        let validSpawnPositions = getValidSpawnPositions (hexesOf p)
        in if length validSpawnPositions > 0
           then s\<lparr>tilePosition :=
                    validSpawnPositions ! randomIndex rs (rndIdx s) (length validSpawnPositions),
                  tileRotation := 0,
                  rndIdx := Suc (rndIdx s)\<rparr>
           else s)"

text \<open>
  \<^verbatim>\<open>placeTile\<close>, called in a render with props \<open>p\<close>. A blocked placement calls
  \<^verbatim>\<open>spawnNewTile\<close> at once. A placement writes the board, draws from the queue and starts
  a timeout: the spawn of the next tile when the queue gave one, the number generation
  when it gave none. The notification \<^verbatim>\<open>onTilePlaced\<close> changes only the parent's resource
  statistics and is left out.
\<close>

definition placeTile :: "Props \<Rightarrow> RandomSource \<Rightarrow> GameState \<Rightarrow> int \<Rightarrow> int \<Rightarrow> GameState" where
  "placeTile p rs s a b =
     (case currentTile (queue s) of
        None \<Rightarrow> s
      | Some cur \<Rightarrow>
          if \<not> isValidPosition (hexesOf p) a b then s
          else if occupied (board s) (a, b)
          then spawnNewTile p rs (hasMoreTiles (queue s)) s
          else
            let newBoard = AList.update (a, b)
                             \<lparr>q = a, r = b, terrain = Some cur, isWater = False\<rparr> (board s);
                (nextTileFromQueue, queue') = getNextTile (queue s);
                s1 = s\<lparr>board := newBoard, queue := queue'\<rparr>
            in case nextTileFromQueue of
                 Some _ \<Rightarrow>
                   s1\<lparr>spawnTimers := spawnTimers s @ [(isPlaying p, hasMoreTiles (queue s))]\<rparr>
               | None \<Rightarrow> s1\<lparr>numberTimers := numberTimers s @ [newBoard]\<rparr>)"

text \<open>The oldest pending spawn timeout fires.\<close>

definition fireSpawnTimer :: "Props \<Rightarrow> RandomSource \<Rightarrow> GameState \<Rightarrow> GameState" where
  "fireSpawnTimer p rs s =
     (case spawnTimers s of
        [] \<Rightarrow> s
      | (capturedPlaying, capturedMore) # rest \<Rightarrow>
          spawnNewTile (p\<lparr>isPlaying := capturedPlaying\<rparr>) rs capturedMore
            (s\<lparr>spawnTimers := rest\<rparr>))"

text \<open>
  The oldest pending number generation fires: the numbers for the board it captured, the
  final-board flag, and \<^verbatim>\<open>onGameEnd\<close>, with which the parent clears its two flags. A
  generation that throws sets nothing.
\<close>

definition fireNumberTimer :: "Props \<Rightarrow> RandomSource \<Rightarrow> GameState \<Rightarrow> GameState" where
  "fireNumberTimer p rs s =
     (case numberTimers s of
        [] \<Rightarrow> s
      | newBoard # rest \<Rightarrow>
          (case assignNumbers (mapSize p) rs (rndIdx s) newBoard of
             Inl e \<Rightarrow> s\<lparr>numberTimers := rest\<rparr>
           | Inr (n', newNumbers) \<Rightarrow>
               s\<lparr>numberTimers := rest, boardNumbers := newNumbers, showFinalBoard := True,
                 rndIdx := n', playing := False, paused := False\<rparr>))"

text \<open>
  The scan that \<^verbatim>\<open>autoDropTile\<close> and \<^verbatim>\<open>hardDrop\<close> both run over the column hexes
  \<open>cs\<close>, top to bottom, from index \<open>i\<close>: at the first occupied hex the target is the row
  of the hex above it, or one row above the column when the top hex itself is occupied;
  with no occupied hex the target stays \<open>targetR\<close>.
\<close>

function scanColumn :: "Board \<Rightarrow> Hex list \<Rightarrow> nat \<Rightarrow> int \<Rightarrow> int" where
  "scanColumn b cs i targetR =
     (if i < length cs
      then
        let hex = cs ! i
        in if occupied b (q hex, r hex)
           then (if i = 0 then r hex - 1 else r (cs ! (i - 1)))
           else scanColumn b cs (i + 1) targetR
      else targetR)"
  by pat_completeness auto
termination
  by (relation "measure (\<lambda>(b, cs, i, targetR). length cs - i)") auto

declare scanColumn.simps [simp del]

text \<open>
  The target row of a column: \<open>None\<close> when the column has no land hex (both callers
  return early), else the scan started from the bottom-most row.
\<close>

definition targetRow :: "Hex list \<Rightarrow> Board \<Rightarrow> int \<Rightarrow> int option" where
  "targetRow hexes b col =
     (let cs = columnHexes hexes col
      in if length cs = 0 then None
         else Some (scanColumn b cs 0 (r (cs ! (length cs - 1)))))"

definition autoDropTile :: "Props \<Rightarrow> RandomSource \<Rightarrow> GameState \<Rightarrow> GameState" where
  "autoDropTile p rs s =
     (if currentTile (queue s) = None \<or> \<not> isPlaying p \<or> showFinalBoard s then s
      else
        let (prevQ, prevR) = tilePosition s;
            newR = prevR + 1
        in case targetRow (hexesOf p) (board s) prevQ of
             None \<Rightarrow> s
           | Some targetR \<Rightarrow>
               if newR \<ge> targetR then placeTile p rs s prevQ targetR
               else s\<lparr>tilePosition := (prevQ, newR)\<rparr>)"

definition hardDrop :: "Props \<Rightarrow> RandomSource \<Rightarrow> GameState \<Rightarrow> GameState" where
  "hardDrop p rs s =
     (if currentTile (queue s) = None \<or> \<not> isPlaying p then s
      else
        case targetRow (hexesOf p) (board s) (fst (tilePosition s)) of
          None \<Rightarrow> s
        | Some targetR \<Rightarrow> placeTile p rs s (fst (tilePosition s)) targetR)"

definition handleBoardClick :: "Props \<Rightarrow> RandomSource \<Rightarrow> GameState \<Rightarrow> int \<Rightarrow> int \<Rightarrow> GameState" where
  "handleBoardClick p rs s a b =
     (if currentTile (queue s) = None \<or> \<not> isPlaying p \<or> showFinalBoard s then s
      else if \<not> isValidPosition (hexesOf p) a b then s
      else if occupied (board s) (a, b) then spawnNewTile p rs (hasMoreTiles (queue s)) s
      else s\<lparr>tilePosition := (a, b)\<rparr>)"

text \<open>
  The updater of the arrow keys, for the destination column \<open>newQ\<close>: above the top row
  the column needs a land hex; from the top row on, the destination is a valid position
  without a tile.
\<close>

definition moveTo :: "Hex list \<Rightarrow> Board \<Rightarrow> int \<times> int \<Rightarrow> int \<Rightarrow> int \<times> int" where
  "moveTo hexes b prev newQ =
     (let landHexes = filter (\<lambda>h. \<not> isWater h) hexes;
          topRow = mathMin (map r landHexes);
          above = (case topRow of None \<Rightarrow> True | Some t \<Rightarrow> snd prev < t)
      in if above
         then (if list_ex (\<lambda>h. q h = newQ) landHexes then (newQ, snd prev) else prev)
         else
           let hasCollision = occupied b (newQ, snd prev)
           in if isValidPosition hexes newQ (snd prev) \<and> \<not> hasCollision
              then (newQ, snd prev) else prev)"

datatype KeyboardKey = ArrowLeft | ArrowRight | ArrowDown | Space | ArrowUp | OtherKey

definition handleKeyDown :: "Props \<Rightarrow> RandomSource \<Rightarrow> GameState \<Rightarrow> KeyboardKey \<Rightarrow> GameState" where
  "handleKeyDown p rs s k =
     (if currentTile (queue s) = None \<or> \<not> isPlaying p \<or> showFinalBoard s then s
      else case k of
        ArrowLeft \<Rightarrow>
          s\<lparr>tilePosition := moveTo (hexesOf p) (board s) (tilePosition s) (fst (tilePosition s) - 1)\<rparr>
      | ArrowRight \<Rightarrow>
          s\<lparr>tilePosition := moveTo (hexesOf p) (board s) (tilePosition s) (fst (tilePosition s) + 1)\<rparr>
      | ArrowDown \<Rightarrow> s\<lparr>dropSpeed := 100\<rparr>
      | Space \<Rightarrow> hardDrop p rs s
      | ArrowUp \<Rightarrow> s\<lparr>tileRotation := (tileRotation s + 60) mod 360\<rparr>
      | OtherKey \<Rightarrow> s)"

definition handleKeyUp :: "GameState \<Rightarrow> KeyboardKey \<Rightarrow> GameState" where
  "handleKeyUp s k = (if k = ArrowDown then s\<lparr>dropSpeed := 1000\<rparr> else s)"

text \<open>The callback of the speed-up interval, which exists while the game is playing.\<close>

definition speedUp :: "Props \<Rightarrow> GameState \<Rightarrow> GameState" where
  "speedUp p s = (if \<not> isPlaying p then s else s\<lparr>dropSpeed := max 300 (dropSpeed s - 20)\<rparr>)"

text \<open>The \<^verbatim>\<open>View Board\<close> button, which the overlay of the final board offers.\<close>

definition viewBoard :: "GameState \<Rightarrow> GameState" where
  "viewBoard s = (if showFinalBoard s then s\<lparr>showFinalBoard := False\<rparr> else s)"

text \<open>
  The buttons of the parent. \<^verbatim>\<open>Start Game\<close> is offered while the parent's \<^verbatim>\<open>isPlaying\<close>
  is false, \<^verbatim>\<open>Pause\<close>/\<^verbatim>\<open>Resume\<close> and \<^verbatim>\<open>Reset\<close> while it is true. \<^verbatim>\<open>Reset\<close> also changes
  \<^verbatim>\<open>resetTrigger\<close>, on which the reset effect of the board runs; that effect leaves the
  pending timeouts alone.
\<close>

definition handleStartGame :: "GameState \<Rightarrow> GameState" where
  "handleStartGame s = (if playing s then s else s\<lparr>playing := True, paused := False\<rparr>)"

definition handlePauseGame :: "GameState \<Rightarrow> GameState" where
  "handlePauseGame s = (if playing s then s\<lparr>paused := \<not> paused s\<rparr> else s)"

definition resetEffect :: "GameState \<Rightarrow> GameState" where
  "resetEffect s = s\<lparr>board := [], tilePosition := (0, 0), tileRotation := 0,
                     dropSpeed := 1000, showFinalBoard := False, boardNumbers := [],
                     queue := resetQueue\<rparr>"

definition handleResetGame :: "GameState \<Rightarrow> GameState" where
  "handleResetGame s =
     (if playing s then resetEffect (s\<lparr>playing := False, paused := False\<rparr>) else s)"

text \<open>The state of a mounted board before the game is started.\<close>

definition resetGame :: GameState where
  "resetGame = \<lparr>board = [], tilePosition = (0, 0), tileRotation = 0, dropSpeed = 1000,
                 showFinalBoard = False, boardNumbers = [], queue = resetQueue, rndIdx = 0,
                 playing = False, paused = False, spawnTimers = [], numberTimers = []\<rparr>"

text \<open>
  The queue effect (dependencies \<^verbatim>\<open>[isPlaying, tileCount]\<close>), when \<^verbatim>\<open>isPlaying\<close> is true: a
  new bag and the queue state read from it.
\<close>

definition queueEffect :: "Props \<Rightarrow> RandomSource \<Rightarrow> GameState \<Rightarrow> GameState" where
  "queueEffect p rs s =
     (let (n', queue') = initQueue rs (rndIdx s) (tileCount p) (queue s)
      in s\<lparr>queue := queue', rndIdx := n'\<rparr>)"

text \<open>
  The spawn effect (dependencies \<^verbatim>\<open>[isPlaying, currentTile]\<close>) of the render that shows the
  state \<open>render\<close>: it reads \<^verbatim>\<open>isPlaying\<close>, the current tile and \<^verbatim>\<open>hasMoreTiles\<close> of that
  render and works on the state \<open>s\<close> that the effects before it have left.
\<close>

definition spawnEffect :: "Props \<Rightarrow> RandomSource \<Rightarrow> GameState \<Rightarrow> GameState \<Rightarrow> GameState" where
  "spawnEffect p rs render s =
     (if isPlaying (renderProps p render) \<and> currentTile (queue render) \<noteq> None
      then spawnNewTile (renderProps p render) rs (hasMoreTiles (queue render)) s
      else s)"

text \<open>
  The effects that follow an event, from the state \<open>old\<close> of the last render to the
  state \<open>s\<close> that the event's handler left. In the first render after the event the
  queue effect runs when \<^verbatim>\<open>isPlaying\<close> has changed, and then the spawn effect when
  \<^verbatim>\<open>isPlaying\<close> or the current tile has changed; both belong to that render, so the spawn
  effect reads the current tile and \<^verbatim>\<open>hasMoreTiles\<close> from before the new bag. The new bag
  causes a second render, whose spawn effect runs when the current tile has changed once
  more.
\<close>

definition runEffects :: "Props \<Rightarrow> RandomSource \<Rightarrow> GameState \<Rightarrow> GameState \<Rightarrow> GameState" where
  "runEffects p rs old s =
     (let changed = (isPlaying (renderProps p s) \<noteq> isPlaying (renderProps p old));
          s1 = (if changed \<and> isPlaying (renderProps p s) then queueEffect p rs s else s);
          s2 = (if changed \<or> currentTile (queue s) \<noteq> currentTile (queue old)
                then spawnEffect p rs s s1 else s1);
          s3 = (if currentTile (queue s1) \<noteq> currentTile (queue s)
                then spawnEffect p rs s1 s2 else s2)
      in s3)"

text \<open>
  What can happen to a mounted board: a key goes down or up, the drop interval or the
  speed-up interval fires, a board cell is clicked, a pending timeout fires, a button is
  clicked. Each event is handled to its end, effects included, before the next one. An
  event whose source does not exist in a state (an interval that is cleared, a button
  that is not shown, a timeout that is not pending) changes nothing there. Event lists
  are not restricted by real time: every interleaving of timers and input is a run.
\<close>

datatype Event =
    KeyDown KeyboardKey | KeyUp KeyboardKey | BoardClick int int
  | DropTimer | SpeedTimer | SpawnTimer | NumberTimer
  | StartGame | PauseGame | ResetGame | ViewBoard

fun handleEvent :: "Props \<Rightarrow> RandomSource \<Rightarrow> GameState \<Rightarrow> Event \<Rightarrow> GameState" where
  "handleEvent p rs s (KeyDown k) = handleKeyDown p rs s k"
| "handleEvent p rs s (KeyUp k) = handleKeyUp s k"
| "handleEvent p rs s (BoardClick a b) = handleBoardClick p rs s a b"
| "handleEvent p rs s DropTimer = autoDropTile p rs s"
| "handleEvent p rs s SpeedTimer = speedUp p s"
| "handleEvent p rs s SpawnTimer = fireSpawnTimer p rs s"
| "handleEvent p rs s NumberTimer = fireNumberTimer p rs s"
| "handleEvent p rs s StartGame = handleStartGame s"
| "handleEvent p rs s PauseGame = handlePauseGame s"
| "handleEvent p rs s ResetGame = handleResetGame s"
| "handleEvent p rs s ViewBoard = viewBoard s"

definition step :: "Props \<Rightarrow> RandomSource \<Rightarrow> GameState \<Rightarrow> Event \<Rightarrow> GameState" where
  "step p rs s e = runEffects p rs s (handleEvent (renderProps p s) rs s e)"

definition run :: "Props \<Rightarrow> RandomSource \<Rightarrow> GameState \<Rightarrow> Event list \<Rightarrow> GameState" where
  "run p rs s evs = foldl (step p rs) s evs"

text \<open>The start of a session: the mounted board after \<^verbatim>\<open>Start Game\<close>.\<close>

definition startGame :: "Props \<Rightarrow> RandomSource \<Rightarrow> GameState" where
  "startGame p rs = step p rs resetGame StartGame"

section \<open>Notions of the specification and concrete sessions\<close>

text \<open>
  The land cells of a layout, as a set of coordinates; and a session of three tiles on
  the classic board with its random source, for the concrete evaluations below.
\<close>

definition landCells :: "Hex list \<Rightarrow> (int \<times> int) set" where
  "landCells hexes = set (map (\<lambda>h. (q h, r h)) (filter (\<lambda>h. \<not> isWater h) hexes))"

definition demoProps :: Props where
  "demoProps = \<lparr>mapSize = 2, isPlaying = True,
                 tileCount = zeroCounts\<lparr>field := 1, desert := 1, gold := 1\<rparr>\<rparr>"

definition demoRandom :: RandomSource where
  "demoRandom = \<lparr>draw = (\<lambda>n. 7 * n + 3), sortOrder = (\<lambda>xs. xs)\<rparr>"

text \<open>
  The cells that are to hold a number, in the words of the specification: the cells of
  the board with a terrain that is neither desert nor water.
\<close>

definition eligibleCells :: "Board \<Rightarrow> (int \<times> int) set" where
  "eligibleCells b =
     set (map fst (filter (\<lambda>(k, hex). terrain hex \<noteq> None \<and> terrain hex \<noteq> Some Desert \<and>
                                      terrain hex \<noteq> Some Water) b))"

text \<open>A finished board of three tiles: a desert, a gold and a field tile.\<close>

definition demoBoard :: Board where
  "demoBoard = [((0, 2), \<lparr>q = 0, r = 2, terrain = Some Desert, isWater = False\<rparr>),
                ((0, 1), \<lparr>q = 0, r = 1, terrain = Some Gold, isWater = False\<rparr>),
                ((0, 0), \<lparr>q = 0, r = 0, terrain = Some Field, isWater = False\<rparr>)]"

text \<open>
  The keys of soft drop; and the number of firings of the speed-up interval in a run,
  where only a firing in a state in which the interval exists (the board is playing)
  counts.
\<close>

definition softDropKey :: "Event \<Rightarrow> bool" where
  "softDropKey e = (e = KeyDown ArrowDown \<or> e = KeyUp ArrowDown)"

fun speedFirings :: "Props \<Rightarrow> RandomSource \<Rightarrow> GameState \<Rightarrow> Event list \<Rightarrow> nat" where
  "speedFirings p rs s [] = 0"
| "speedFirings p rs s (e # es) =
     (if e = SpeedTimer \<and> isPlaying (renderProps p s) then 1 else 0)
       + speedFirings p rs (step p rs s e) es"

text \<open>
  A stretch of a session with two placements, a move, a click and a pause, and four
  firings of the speed-up interval, one of them while the game is paused.
\<close>

definition mixedEvents :: "Event list" where
  "mixedEvents = [SpeedTimer, DropTimer, KeyDown Space, SpawnTimer, SpeedTimer, KeyDown ArrowLeft,
                  PauseGame, SpeedTimer, PauseGame, BoardClick 0 0, SpeedTimer]"

text \<open>
  When a left or right move is permitted, in the words of the specification, over the
  set of land cells: above the top row the destination column needs a land cell; from
  the top row on, the destination cell at the same row is a land cell without a tile.
\<close>

definition moveAllowed :: "(int \<times> int) set \<Rightarrow> Board \<Rightarrow> int \<times> int \<Rightarrow> int \<Rightarrow> bool" where
  "moveAllowed cells b pos newQ =
     (if (\<forall>c\<in>cells. snd pos < snd c)
      then (\<exists>c\<in>cells. fst c = newQ)
      else (newQ, snd pos) \<in> cells \<and> \<not> occupied b (newQ, snd pos))"

text \<open>A state with its rotation angle blanked, and an event list without its rotate keys.\<close>

definition eraseRotation :: "GameState \<Rightarrow> GameState" where
  "eraseRotation s = s\<lparr>tileRotation := 0\<rparr>"

definition removeRotations :: "Event list \<Rightarrow> Event list" where
  "removeRotations evs = filter (\<lambda>e. e \<noteq> KeyDown ArrowUp) evs"

text \<open>The falling tile of the demo session moved to the right-most column, above the board.\<close>

definition edgeState :: GameState where
  "edgeState = run demoProps demoRandom (startGame demoProps demoRandom)
                 (replicate 4 (KeyDown ArrowRight))"


text \<open>
  A session of seven field tiles on the classic board in which every spawn up to the
  sixth tile picks column 0 and the next spawn would pick column 1; after five hard
  drops, each followed by its spawn timeout, column 0 is full and the sixth tile hangs
  above it.
\<close>

definition fullProps :: Props where
  "fullProps = \<lparr>mapSize = 2, isPlaying = True, tileCount = zeroCounts\<lparr>field := 7\<rparr>\<rparr>"

definition fullRandom :: RandomSource where
  "fullRandom = \<lparr>draw = (\<lambda>n. if n < 12 then 0 else 1), sortOrder = (\<lambda>xs. xs)\<rparr>"


text \<open>
  The buttons of the parent that start, pause, resume or reset a game; and the two
  effects that any other event can have on the board and the queue: none, or the commit
  of the current tile at the target row of some column, with a draw from the queue
  unless the queue cannot supply another tile.
\<close>

definition sessionButton :: "Event \<Rightarrow> bool" where
  "sessionButton e = (e = StartGame \<or> e = PauseGame \<or> e = ResetGame)"

definition unchanged :: "GameState \<Rightarrow> GameState \<Rightarrow> bool" where
  "unchanged s s' = (board s' = board s \<and> queue s' = queue s)"

definition commits :: "Props \<Rightarrow> GameState \<Rightarrow> GameState \<Rightarrow> bool" where
  "commits p s s' =
     (\<exists>col t cur.
        currentTile (queue s) = Some cur \<and>
        targetRow (hexesOf p) (board s) col = Some t \<and>
        isValidPosition (hexesOf p) col t \<and> \<not> occupied (board s) (col, t) \<and>
        board s' = AList.update (col, t)
                     \<lparr>q = col, r = t, terrain = Some cur, isWater = False\<rparr> (board s) \<and>
        queue s' = (if length (tileQueue (queue s)) \<le> 1 then queue s
                    else snd (getNextTile (queue s))))"

text \<open>
  The invariant of a session without pause, restart and reset that relates the queue to
  the board: every board entry has a terrain, a current tile comes with a non-empty
  queue, and either the queue and the board together hold as many tiles as the bag had,
  or the queue holds its last tile and the board holds at least as many tiles as the bag
  had.
\<close>

definition hasTerrain :: "Board \<Rightarrow> bool" where
  "hasTerrain b = list_all (\<lambda>(k, hex). terrain hex \<noteq> None) b"

definition bagInv :: "Props \<Rightarrow> GameState \<Rightarrow> bool" where
  "bagInv p s =
     (hasTerrain (board s) \<and>
      (currentTile (queue s) = None \<or> tileQueue (queue s) \<noteq> []) \<and>
      (length (tileQueue (queue s)) + length (board s) = length (expandCounts (tileCount p)) \<and>
         (expandCounts (tileCount p) = [] \<or> tileQueue (queue s) \<noteq> [])
       \<or> length (tileQueue (queue s)) = 1 \<and>
         length (expandCounts (tileCount p)) \<le> length (board s)))"

text \<open>
  The rows of a column that hold a tile, sorted; and the invariant of a session that
  keeps each column a stack: the board keys are distinct, every tile lies on a land cell,
  and below a tile (at a greater row) every land cell of its column holds a tile.
\<close>

definition occupiedRows :: "Board \<Rightarrow> int \<Rightarrow> int list" where
  "occupiedRows b col = sort (map snd (filter (\<lambda>k. fst k = col \<and> occupied b k) (map fst b)))"

definition stackInv :: "Props \<Rightarrow> GameState \<Rightarrow> bool" where
  "stackInv p s =
     (distinct (map fst (board s)) \<and>
      (\<forall>k. occupied (board s) k \<longrightarrow> k \<in> landCells (hexesOf p)) \<and>
      (\<forall>col b1 b2. occupied (board s) (col, b1) \<and> (col, b2) \<in> landCells (hexesOf p) \<and> b1 \<le> b2
          \<longrightarrow> occupied (board s) (col, b2)))"


section \<open>The tile bag\<close>

lemma pushLoop_eq: "pushLoop i c t bag = bag @ replicate (nat (c - i)) t"
proof (induction i c t bag rule: pushLoop.induct)
  case (1 i c t bag)
  show ?case
  proof (cases "i < c")
    case True
    then have "nat (c - i) = Suc (nat (c - (i + 1)))" by simp
    with True 1 show ?thesis
      by (simp add: pushLoop.simps [of i] replicate_append_same)
  next
    case False
    then show ?thesis by (simp add: pushLoop.simps [of i])
  qed
qed

lemma expandCounts_eq:
  "expandCounts c =
     replicate (nat (field c)) Field @ replicate (nat (forest c)) Forest @
     replicate (nat (pasture c)) Pasture @ replicate (nat (hill c)) Hill @
     replicate (nat (mountain c)) Mountain @ replicate (nat (desert c)) Desert @
     replicate (nat (water c)) Water @ replicate (nat (gold c)) Gold"
  by (simp add: expandCounts_def pushLoop_eq)

lemma count_expandCounts: "count (mset (expandCounts c)) t = nat (countOf c t)"
  by (cases t) (simp_all add: expandCounts_eq)

lemma length_expandCounts:
  "wellFormedCounts c \<Longrightarrow> int (length (expandCounts c)) = totalTiles c"
  by (simp add: expandCounts_eq wellFormedCounts_def totalTiles_def)

lemma mset_swap_bag:
  "i < length bag \<Longrightarrow> j < length bag \<Longrightarrow> mset (swap i j bag) = mset bag"
  unfolding swap_def by (metis mset_swap)

lemma length_swap_bag: "length (swap i j bag) = length bag"
  by (simp add: swap_def)

lemma shuffleLoop_perm:
  "k \<le> length bag - 1 \<Longrightarrow> mset (snd (shuffleLoop rs n k bag)) = mset bag"
proof (induction k arbitrary: n bag)
  case 0
  show ?case by simp
next
  case (Suc k)
  then have lt: "Suc k < length bag" by auto
  have "randomIndex rs n (Suc k + 1) < Suc k + 1"
    unfolding randomIndex_def by (rule mod_less_divisor) simp
  with lt have j: "randomIndex rs n (Suc k + 1) < length bag" by linarith
  show ?case
    using Suc.IH [of "swap (Suc k) (randomIndex rs n (Suc k + 1)) bag" "Suc n"] lt j
    by (simp add: Let_def mset_swap_bag length_swap_bag)
qed

lemma generateTileBag_perm: "mset (snd (generateTileBag rs n c)) = mset (expandCounts c)"
  by (simp add: generateTileBag_def Let_def shuffleLoop_perm)

lemma length_generateTileBag: "length (snd (generateTileBag rs n c)) = length (expandCounts c)"
  using generateTileBag_perm [of rs n c] by (metis size_mset)

text \<open>
  Claim C3. For a well-formed tile count (no negative count), the bag that
  \<^verbatim>\<open>generateTileBag\<close> returns is a permutation of the expanded counts: it holds every
  terrain kind exactly as often as the configuration says, and its length is the sum of
  all counts, whatever the random draws of the shuffle are.
\<close>

theorem generateTileBag_multiset:
  assumes "wellFormedCounts c"
  shows "mset (snd (generateTileBag rs n c)) = mset (expandCounts c) \<and>
         int (count (mset (snd (generateTileBag rs n c))) t) = countOf c t \<and>
         int (length (snd (generateTileBag rs n c))) = totalTiles c"
proof -
  have "0 \<le> countOf c t"
    using assms by (cases t) (simp_all add: wellFormedCounts_def)
  then have "int (count (mset (snd (generateTileBag rs n c))) t) = countOf c t"
    by (simp add: generateTileBag_perm count_expandCounts)
  moreover have "int (length (snd (generateTileBag rs n c))) = totalTiles c"
    using assms by (simp add: length_generateTileBag length_expandCounts)
  ultimately show ?thesis by (simp add: generateTileBag_perm)
qed

theorem generateTileBag_multiset_witness:
  "wellFormedCounts classicCounts \<and>
   mset (snd (generateTileBag demoRandom 0 classicCounts)) = mset (expandCounts classicCounts) \<and>
   int (count (mset (snd (generateTileBag demoRandom 0 classicCounts))) Desert) = 1 \<and>
   int (length (snd (generateTileBag demoRandom 0 classicCounts))) = 19"
proof -
  have wf: "wellFormedCounts classicCounts"
    by (simp add: wellFormedCounts_def classicCounts_def)
  have cnt: "countOf classicCounts Desert = 1"
    by (simp add: classicCounts_def)
  have tot: "totalTiles classicCounts = 19"
    by (simp add: classicCounts_def totalTiles_def)
  from generateTileBag_multiset [OF wf, of demoRandom 0 Desert]
  show ?thesis unfolding cnt tot using wf by blast
qed

text \<open>
  Claim C10. With one tile or none in the queue, \<^verbatim>\<open>getNextTile\<close> returns null and the
  queue state after the call is the state before it: the queue, the current tile, the
  next tile and the remaining counts, so the count of the last tile's kind is not
  decremented.
\<close>

theorem getNextTile_short_queue:
  assumes "length (tileQueue tq) \<le> 1"
  shows "getNextTile tq = (None, tq) \<and>
         remainingTiles (snd (getNextTile tq)) = remainingTiles tq"
  using assms by (simp add: getNextTile_def)

theorem getNextTile_short_queue_witness:
  "length (tileQueue \<lparr>tileQueue = [Hill], currentTile = Some Hill, nextTile = None,
                        remainingTiles = zeroCounts\<lparr>hill := 1\<rparr>\<rparr>) \<le> 1 \<and>
   getNextTile \<lparr>tileQueue = [Hill], currentTile = Some Hill, nextTile = None,
                 remainingTiles = zeroCounts\<lparr>hill := 1\<rparr>\<rparr>
     = (None, \<lparr>tileQueue = [Hill], currentTile = Some Hill, nextTile = None,
                remainingTiles = zeroCounts\<lparr>hill := 1\<rparr>\<rparr>) \<and>
   hill (remainingTiles (snd (getNextTile \<lparr>tileQueue = [Hill], currentTile = Some Hill,
                 nextTile = None, remainingTiles = zeroCounts\<lparr>hill := 1\<rparr>\<rparr>))) = 1"
  using getNextTile_short_queue
          [of "\<lparr>tileQueue = [Hill], currentTile = Some Hill, nextTile = None,
                remainingTiles = zeroCounts\<lparr>hill := 1\<rparr>\<rparr>"]
  by (simp add: zeroCounts_def)

section \<open>The layout\<close>

lemma hexesOf_mapSize: "mapSize p = mapSize p' \<Longrightarrow> hexesOf p = hexesOf p'"
  by (simp add: hexesOf_def)

lemma landCells_size2: "card (landCells (generateCatanBoard 2)) = 19"
  by code_simp

lemma landCells_size3: "card (landCells (generateCatanBoard 3)) = 37"
  by code_simp

lemma landCells_size4: "card (landCells (generateCatanBoard 4)) = 61"
  by code_simp

lemma length_sizes:
  "length (generateCatanBoard 2) = 19 \<and> length (generateCatanBoard 3) = 37 \<and>
   length (generateCatanBoard 4) = 61"
  by code_simp

text \<open>
  Claim C7. \<^verbatim>\<open>generateCatanBoard\<close> returns 19, 37 and 61 hexes for the sizes 2, 3 and 4,
  all of them land cells at pairwise different coordinates; and the layout of a board
  component depends on its \<^verbatim>\<open>mapSize\<close> prop alone: two components of the same size have
  the same hexes, whatever their other props are.
\<close>

theorem generateCatanBoard_counts:
  "card (landCells (generateCatanBoard 2)) = 19 \<and> length (generateCatanBoard 2) = 19 \<and>
   card (landCells (generateCatanBoard 3)) = 37 \<and> length (generateCatanBoard 3) = 37 \<and>
   card (landCells (generateCatanBoard 4)) = 61 \<and> length (generateCatanBoard 4) = 61 \<and>
   (mapSize p = mapSize p' \<longrightarrow>
      hexesOf p = hexesOf p' \<and> landCells (hexesOf p) = landCells (hexesOf p'))"
  using landCells_size2 landCells_size3 landCells_size4 length_sizes
  by (simp add: hexesOf_def)

theorem generateCatanBoard_counts_witness:
  "mapSize demoProps = mapSize (demoProps\<lparr>isPlaying := False, tileCount := classicCounts\<rparr>) \<and>
   hexesOf demoProps = hexesOf (demoProps\<lparr>isPlaying := False, tileCount := classicCounts\<rparr>) \<and>
   card (landCells (hexesOf demoProps)) = 19"
  using generateCatanBoard_counts
          [of demoProps "demoProps\<lparr>isPlaying := False, tileCount := classicCounts\<rparr>"]
  by (simp add: hexesOf_def demoProps_def)

section \<open>Renders and spawns\<close>

lemma isPlaying_renderProps [simp]: "isPlaying (renderProps p s) = (playing s \<and> \<not> paused s)"
  by (simp add: renderProps_def)

lemma mapSize_renderProps [simp]: "mapSize (renderProps p s) = mapSize p"
  by (simp add: renderProps_def)

lemma tileCount_renderProps [simp]: "tileCount (renderProps p s) = tileCount p"
  by (simp add: renderProps_def)

lemma hexesOf_renderProps [simp]: "hexesOf (renderProps p s) = hexesOf p"
  by (simp add: hexesOf_def)

lemma runEffects_same:
  assumes "playing s = playing old" and "paused s = paused old"
      and "currentTile (queue s) = currentTile (queue old)"
  shows "runEffects p rs old s = s"
  using assms by (simp add: runEffects_def Let_def)

lemma runEffects_quiet:
  assumes "(playing s \<and> \<not> paused s) = (playing old \<and> \<not> paused old) \<or> \<not> (playing s \<and> \<not> paused s)"
  shows "runEffects p rs old s =
           (if currentTile (queue s) \<noteq> currentTile (queue old) then spawnEffect p rs s s else s)"
  using assms by (auto simp: runEffects_def Let_def spawnEffect_def)

section \<open>The drop speed\<close>

lemma dropSpeed_spawnNewTile: "dropSpeed (spawnNewTile p rs c s) = dropSpeed s"
  by (simp add: spawnNewTile_def Let_def)

lemma dropSpeed_placeTile: "dropSpeed (placeTile p rs s a b) = dropSpeed s"
  by (simp add: placeTile_def Let_def dropSpeed_spawnNewTile split: option.splits prod.splits)

lemma dropSpeed_runEffects: "dropSpeed (runEffects p rs old s) = dropSpeed s"
  by (simp add: runEffects_def spawnEffect_def Let_def dropSpeed_spawnNewTile queueEffect_def
        split: prod.splits)

lemma dropSpeed_handleEvent:
  assumes "\<not> softDropKey e" and "e \<noteq> ResetGame"
  shows "dropSpeed (handleEvent p rs s e) =
           (if e = SpeedTimer \<and> isPlaying p then max 300 (dropSpeed s - 20) else dropSpeed s)"
proof (cases e)
  case (KeyDown k)
  with assms show ?thesis
    by (cases k) (simp_all add: handleKeyDown_def hardDrop_def dropSpeed_placeTile softDropKey_def
          split: option.splits)
next
  case (KeyUp k)
  with assms show ?thesis by (simp add: handleKeyUp_def softDropKey_def)
next
  case (BoardClick a b)
  then show ?thesis by (simp add: handleBoardClick_def dropSpeed_spawnNewTile)
next
  case DropTimer
  then show ?thesis
    by (simp add: autoDropTile_def dropSpeed_placeTile Let_def split: option.splits prod.splits)
next
  case SpeedTimer
  then show ?thesis by (simp add: speedUp_def)
next
  case SpawnTimer
  then show ?thesis
    by (simp add: fireSpawnTimer_def dropSpeed_spawnNewTile split: list.splits prod.splits)
next
  case NumberTimer
  then show ?thesis
    by (simp add: fireNumberTimer_def split: list.splits sum.splits prod.splits)
next
  case StartGame
  then show ?thesis by (simp add: handleStartGame_def)
next
  case PauseGame
  then show ?thesis by (simp add: handlePauseGame_def)
next
  case ResetGame
  with assms show ?thesis by simp
next
  case ViewBoard
  then show ?thesis by (simp add: viewBoard_def)
qed

lemma dropSpeed_step:
  assumes "\<not> softDropKey e" and "e \<noteq> ResetGame"
  shows "dropSpeed (step p rs s e) =
           (if e = SpeedTimer \<and> isPlaying (renderProps p s)
            then max 300 (dropSpeed s - 20) else dropSpeed s)"
  unfolding step_def dropSpeed_runEffects by (rule dropSpeed_handleEvent [OF assms])

lemma dropSpeed_run:
  assumes "\<not> list_ex softDropKey evs" and "ResetGame \<notin> set evs" and "300 \<le> dropSpeed s"
  shows "dropSpeed (run p rs s evs) = max 300 (dropSpeed s - 20 * int (speedFirings p rs s evs))"
  using assms
proof (induction evs arbitrary: s)
  case Nil
  then show ?case by (simp add: run_def)
next
  case (Cons e es)
  from Cons.prems have e: "\<not> softDropKey e" "e \<noteq> ResetGame" by auto
  have r: "run p rs s (e # es) = run p rs (step p rs s e) es"
    by (simp add: run_def)
  have lo: "300 \<le> dropSpeed (step p rs s e)"
    using Cons.prems(3) by (simp add: dropSpeed_step [OF e])
  have "dropSpeed (run p rs (step p rs s e) es)
          = max 300 (dropSpeed (step p rs s e) - 20 * int (speedFirings p rs (step p rs s e) es))"
    using Cons.prems lo by (intro Cons.IH) auto
  then show ?case
    unfolding r using Cons.prems(3) by (auto simp: dropSpeed_step [OF e])
qed

lemma dropSpeed_startGame: "dropSpeed (startGame p rs) = 1000"
  by (simp add: startGame_def step_def dropSpeed_runEffects handleStartGame_def resetGame_def)

text \<open>
  Claim C8, as stated, fails where it says that releasing soft drop restores the ramped
  speed: after one speed-up the interval is 980, and pressing and releasing the down
  arrow leaves it at 1000.
\<close>

theorem softDrop_release_counterexample:
  "dropSpeed (run demoProps demoRandom (startGame demoProps demoRandom) [SpeedTimer]) = 980 \<and>
   dropSpeed (run demoProps demoRandom (startGame demoProps demoRandom)
                [SpeedTimer, KeyDown ArrowDown, KeyUp ArrowDown]) = 1000"
  by code_simp

text \<open>
  Claim C8, amended. The interval starts at 1000. In a session without reset in which
  the down arrow is neither pressed nor released, after every sequence of events (drop
  ticks, moves, hard drops, placements, clicks, timeouts, pause and resume) the interval
  is \<open>max 300 (1000 - 20 n)\<close>, where \<open>n\<close> is the number of firings of the 20-second
  speed-up interval so far: each firing lowers it by 20 down to the floor 300 and nothing
  else changes it. Pressing the down arrow while a tile is in play sets it to 100;
  releasing the down arrow sets it to the initial 1000, whatever the speed was before.
\<close>

theorem dropSpeed_policy:
  "dropSpeed (startGame p rs) = 1000 \<and>
   (\<not> list_ex softDropKey evs \<and> ResetGame \<notin> set evs \<longrightarrow>
      dropSpeed (run p rs (startGame p rs) evs)
        = max 300 (1000 - 20 * int (speedFirings p rs (startGame p rs) evs))) \<and>
   (currentTile (queue s) \<noteq> None \<and> isPlaying (renderProps p s) \<and> \<not> showFinalBoard s \<longrightarrow>
      dropSpeed (step p rs s (KeyDown ArrowDown)) = 100) \<and>
   dropSpeed (step p rs s (KeyUp ArrowDown)) = 1000"
proof -
  have "dropSpeed (run p rs (startGame p rs) evs)
          = max 300 (1000 - 20 * int (speedFirings p rs (startGame p rs) evs))"
    if "\<not> list_ex softDropKey evs" "ResetGame \<notin> set evs"
    using dropSpeed_run [OF that, of "startGame p rs" p rs] by (simp add: dropSpeed_startGame)
  moreover have "dropSpeed (step p rs s (KeyDown ArrowDown)) = 100"
    if "currentTile (queue s) \<noteq> None \<and> isPlaying (renderProps p s) \<and> \<not> showFinalBoard s"
    using that by (auto simp: step_def dropSpeed_runEffects handleKeyDown_def)
  moreover have "dropSpeed (step p rs s (KeyUp ArrowDown)) = 1000"
    by (simp add: step_def dropSpeed_runEffects handleKeyUp_def)
  ultimately show ?thesis by (simp add: dropSpeed_startGame)
qed

theorem dropSpeed_policy_witness:
  "\<not> list_ex softDropKey mixedEvents \<and> ResetGame \<notin> set mixedEvents \<and>
   speedFirings demoProps demoRandom (startGame demoProps demoRandom) mixedEvents = 3 \<and>
   dropSpeed (run demoProps demoRandom (startGame demoProps demoRandom) mixedEvents) = 940 \<and>
   currentTile (queue (startGame demoProps demoRandom)) \<noteq> None \<and>
   isPlaying (renderProps demoProps (startGame demoProps demoRandom)) \<and>
   \<not> showFinalBoard (startGame demoProps demoRandom) \<and>
   dropSpeed (step demoProps demoRandom (startGame demoProps demoRandom) (KeyDown ArrowDown))
     = 100 \<and>
   dropSpeed (step demoProps demoRandom (startGame demoProps demoRandom) (KeyUp ArrowDown))
     = 1000"
proof -
  have evs: "\<not> list_ex softDropKey mixedEvents \<and> ResetGame \<notin> set mixedEvents"
    by (simp add: mixedEvents_def softDropKey_def)
  have n: "speedFirings demoProps demoRandom (startGame demoProps demoRandom) mixedEvents = 3"
    by code_simp
  have tile: "currentTile (queue (startGame demoProps demoRandom)) \<noteq> None \<and>
              isPlaying (renderProps demoProps (startGame demoProps demoRandom)) \<and>
              \<not> showFinalBoard (startGame demoProps demoRandom)"
    by code_simp
  show ?thesis
    using dropSpeed_policy [of demoProps demoRandom mixedEvents "startGame demoProps demoRandom"]
      evs n tile
    by simp
qed

section \<open>Horizontal moves\<close>

lemma mathMin_None: "mathMin xs = None \<longleftrightarrow> xs = []"
  by (induction xs) (auto split: option.splits)

lemma mathMin_less: "mathMin xs = Some m \<Longrightarrow> (x < m) = (\<forall>y\<in>set xs. x < y)"
  by (induction xs arbitrary: m) (auto split: option.splits simp: mathMin_None)

lemma generateCatanBoard_land: "h \<in> set (generateCatanBoard sz) \<Longrightarrow> \<not> isWater h"
  by (auto simp: generateCatanBoard_def landHex_def split: if_splits)

lemma isValidPosition_land:
  assumes "\<And>h. h \<in> set hexes \<Longrightarrow> \<not> isWater h"
  shows "isValidPosition hexes a b \<longleftrightarrow> (a, b) \<in> landCells hexes"
proof (cases "find (\<lambda>h. q h = a \<and> r h = b) hexes")
  case None
  then have "\<not> (\<exists>h\<in>set hexes. q h = a \<and> r h = b)" by (simp add: find_None_iff)
  with None show ?thesis by (auto simp: isValidPosition_def landCells_def)
next
  case (Some h)
  then have "h \<in> set hexes \<and> q h = a \<and> r h = b"
    by (auto simp: find_Some_iff)
  with Some assms show ?thesis by (force simp: isValidPosition_def landCells_def)
qed

lemma moveTo_allowed:
  assumes "\<And>h. h \<in> set hexes \<Longrightarrow> \<not> isWater h"
  shows "moveTo hexes b prev newQ =
          (if moveAllowed (landCells hexes) b prev newQ then (newQ, snd prev) else prev)"
proof -
  have land: "filter (\<lambda>h. \<not> isWater h) hexes = hexes"
    using assms by (simp add: filter_id_conv)
  have cells: "landCells hexes = (\<lambda>h. (q h, r h)) ` set hexes"
    by (simp add: landCells_def land)
  show ?thesis
  proof (cases "mathMin (map r hexes)")
    case None
    then have "hexes = []" by (simp add: mathMin_None)
    then show ?thesis by (simp add: moveTo_def moveAllowed_def landCells_def)
  next
    case (Some t)
    have above: "(snd prev < t) = (\<forall>c\<in>landCells hexes. snd prev < snd c)"
      using mathMin_less [OF Some, of "snd prev"] by (auto simp: cells)
    have col: "list_ex (\<lambda>h. q h = newQ) hexes = (\<exists>c\<in>landCells hexes. fst c = newQ)"
      by (auto simp: cells list_ex_iff)
    show ?thesis
      using Some above col isValidPosition_land [of hexes newQ "snd prev"] assms
      by (simp add: moveTo_def moveAllowed_def land Let_def)
  qed
qed

text \<open>
  Claim C6. A left or right arrow key moves the falling tile one column exactly when a
  tile is in play (the game is playing and the final board is not shown) and the move is
  permitted: above the board's top row the destination column has a land cell; from the
  top row on, the destination cell at the same row is a land cell without a tile. In
  every other case the state after the key is the state before it.
\<close>

theorem horizontal_move:
  "step p rs s (KeyDown ArrowLeft) =
     (if currentTile (queue s) \<noteq> None \<and> isPlaying (renderProps p s) \<and> \<not> showFinalBoard s \<and>
         moveAllowed (landCells (hexesOf p)) (board s) (tilePosition s) (fst (tilePosition s) - 1)
      then s\<lparr>tilePosition := (fst (tilePosition s) - 1, snd (tilePosition s))\<rparr> else s) \<and>
   step p rs s (KeyDown ArrowRight) =
     (if currentTile (queue s) \<noteq> None \<and> isPlaying (renderProps p s) \<and> \<not> showFinalBoard s \<and>
         moveAllowed (landCells (hexesOf p)) (board s) (tilePosition s) (fst (tilePosition s) + 1)
      then s\<lparr>tilePosition := (fst (tilePosition s) + 1, snd (tilePosition s))\<rparr> else s)"
proof -
  have land: "\<And>h. h \<in> set (hexesOf p) \<Longrightarrow> \<not> isWater h"
    by (simp add: hexesOf_def generateCatanBoard_land)
  have left: "step p rs s (KeyDown ArrowLeft) = handleKeyDown (renderProps p s) rs s ArrowLeft"
    unfolding step_def handleEvent.simps
    by (rule runEffects_same) (simp_all add: handleKeyDown_def)
  have right: "step p rs s (KeyDown ArrowRight) = handleKeyDown (renderProps p s) rs s ArrowRight"
    unfolding step_def handleEvent.simps
    by (rule runEffects_same) (simp_all add: handleKeyDown_def)
  show ?thesis
    unfolding left right
    by (auto simp: handleKeyDown_def moveTo_allowed [OF land])
qed

theorem horizontal_move_witness:
  "currentTile (queue edgeState) \<noteq> None \<and> isPlaying (renderProps demoProps edgeState) \<and>
   \<not> showFinalBoard edgeState \<and>
   tilePosition edgeState = (2, - 4) \<and>
   moveAllowed (landCells (hexesOf demoProps)) (board edgeState) (tilePosition edgeState) 1 \<and>
   \<not> moveAllowed (landCells (hexesOf demoProps)) (board edgeState) (tilePosition edgeState) 3 \<and>
   step demoProps demoRandom edgeState (KeyDown ArrowLeft) = edgeState\<lparr>tilePosition := (1, - 4)\<rparr> \<and>
   step demoProps demoRandom edgeState (KeyDown ArrowRight) = edgeState"
proof -
  have pos: "tilePosition edgeState = (2, - 4)"
    by code_simp
  have guard: "currentTile (queue edgeState) \<noteq> None \<and>
               isPlaying (renderProps demoProps edgeState) \<and> \<not> showFinalBoard edgeState"
    by code_simp
  have left: "moveAllowed (landCells (hexesOf demoProps)) (board edgeState) (tilePosition edgeState) 1"
    by code_simp
  have right: "\<not> moveAllowed (landCells (hexesOf demoProps)) (board edgeState) (tilePosition edgeState) 3"
    by code_simp
  show ?thesis
    using horizontal_move [of demoProps demoRandom edgeState] pos guard left right
    by simp
qed

section \<open>Rotation\<close>

lemma erase_eq_iff: "eraseRotation s = eraseRotation t \<longleftrightarrow> (\<exists>x. t = s\<lparr>tileRotation := x\<rparr>)"
proof
  assume "eraseRotation s = eraseRotation t"
  then have "t = s\<lparr>tileRotation := tileRotation t\<rparr>"
    by (cases s, cases t) (simp add: eraseRotation_def)
  then show "\<exists>x. t = s\<lparr>tileRotation := x\<rparr>" ..
next
  assume "\<exists>x. t = s\<lparr>tileRotation := x\<rparr>"
  then show "eraseRotation s = eraseRotation t" by (auto simp: eraseRotation_def)
qed

lemma spawn_rot:
  "eraseRotation (spawnNewTile p rs c (s\<lparr>tileRotation := x\<rparr>)) = eraseRotation (spawnNewTile p rs c s)"
  by (simp add: spawnNewTile_def eraseRotation_def Let_def)

lemma place_rot:
  "eraseRotation (placeTile p rs (s\<lparr>tileRotation := x\<rparr>) a b) = eraseRotation (placeTile p rs s a b)"
  by (auto simp add: placeTile_def Let_def eraseRotation_def spawnNewTile_def
        split: option.splits prod.splits)

lemma auto_rot:
  "eraseRotation (autoDropTile p rs (s\<lparr>tileRotation := x\<rparr>)) = eraseRotation (autoDropTile p rs s)"
  by (auto simp add: autoDropTile_def place_rot Let_def split: option.splits prod.splits)
     (simp add: eraseRotation_def)+

lemma hard_rot:
  "eraseRotation (hardDrop p rs (s\<lparr>tileRotation := x\<rparr>)) = eraseRotation (hardDrop p rs s)"
  by (auto simp add: hardDrop_def place_rot Let_def split: option.splits prod.splits)
     (simp add: eraseRotation_def)+

lemma click_rot:
  "eraseRotation (handleBoardClick p rs (s\<lparr>tileRotation := x\<rparr>) a b)
     = eraseRotation (handleBoardClick p rs s a b)"
  by (auto simp add: handleBoardClick_def spawn_rot Let_def split: option.splits prod.splits)
     (simp add: eraseRotation_def)+

lemma spawnTimer_rot:
  "eraseRotation (fireSpawnTimer p rs (s\<lparr>tileRotation := x\<rparr>)) = eraseRotation (fireSpawnTimer p rs s)"
  by (auto simp add: fireSpawnTimer_def spawnNewTile_def eraseRotation_def Let_def
        split: list.splits prod.splits)

lemma numberTimer_rot:
  "eraseRotation (fireNumberTimer p rs (s\<lparr>tileRotation := x\<rparr>)) = eraseRotation (fireNumberTimer p rs s)"
  by (auto simp add: fireNumberTimer_def eraseRotation_def split: list.splits sum.splits prod.splits)

lemma handleEvent_rot:
  "eraseRotation (handleEvent p rs (s\<lparr>tileRotation := x\<rparr>) e) = eraseRotation (handleEvent p rs s e)"
proof (cases e)
  case (KeyDown k)
  then show ?thesis
    using hard_rot [where p = p and rs = rs and s = s and x = x]
    by (cases k) (auto simp: handleKeyDown_def eraseRotation_def)
next
  case (KeyUp k)
  then show ?thesis by (simp add: handleKeyUp_def eraseRotation_def)
next
  case (BoardClick a b)
  then show ?thesis by (simp add: click_rot)
next
  case DropTimer
  then show ?thesis by (simp add: auto_rot)
next
  case SpeedTimer
  then show ?thesis by (simp add: speedUp_def eraseRotation_def)
next
  case SpawnTimer
  then show ?thesis by (simp add: spawnTimer_rot)
next
  case NumberTimer
  then show ?thesis by (simp add: numberTimer_rot)
next
  case StartGame
  then show ?thesis by (simp add: handleStartGame_def eraseRotation_def)
next
  case PauseGame
  then show ?thesis by (simp add: handlePauseGame_def eraseRotation_def)
next
  case ResetGame
  then show ?thesis by (simp add: handleResetGame_def resetEffect_def eraseRotation_def)
next
  case ViewBoard
  then show ?thesis by (simp add: viewBoard_def eraseRotation_def)
qed

lemma renderProps_rot: "renderProps p (s\<lparr>tileRotation := x\<rparr>) = renderProps p s"
  by (simp add: renderProps_def)

lemma queueEffect_rot:
  "queueEffect p rs (s\<lparr>tileRotation := x\<rparr>) = (queueEffect p rs s)\<lparr>tileRotation := x\<rparr>"
  by (simp add: queueEffect_def split: prod.splits)

lemma spawn_rot_ex:
  "\<exists>y. spawnNewTile p rs c (s\<lparr>tileRotation := x\<rparr>) = (spawnNewTile p rs c s)\<lparr>tileRotation := y\<rparr>"
  using spawn_rot [where p = p and rs = rs and c = c and s = s and x = x, symmetric]
  unfolding erase_eq_iff .

lemma spawnEffect_rot:
  "\<exists>y. spawnEffect p rs (rd\<lparr>tileRotation := z\<rparr>) (s\<lparr>tileRotation := x\<rparr>)
         = (spawnEffect p rs rd s)\<lparr>tileRotation := y\<rparr>"
proof (cases "isPlaying (renderProps p rd) \<and> currentTile (queue rd) \<noteq> None")
  case True
  then show ?thesis
    using spawn_rot_ex [where p = "renderProps p rd" and rs = rs and s = s and x = x
                          and c = "hasMoreTiles (queue rd)"]
    by (simp add: spawnEffect_def renderProps_rot)
next
  case False
  then have "spawnEffect p rs (rd\<lparr>tileRotation := z\<rparr>) (s\<lparr>tileRotation := x\<rparr>)
               = (spawnEffect p rs rd s)\<lparr>tileRotation := x\<rparr>"
    by (auto simp add: spawnEffect_def renderProps_rot)
  then show ?thesis ..
qed

lemma runEffects_rot_ex:
  "\<exists>z. runEffects p rs (old\<lparr>tileRotation := y\<rparr>) (s\<lparr>tileRotation := x\<rparr>)
         = (runEffects p rs old s)\<lparr>tileRotation := z\<rparr>"
proof -
  define changed where "changed = (isPlaying (renderProps p s) \<noteq> isPlaying (renderProps p old))"
  define s1 where "s1 = (if changed \<and> isPlaying (renderProps p s) then queueEffect p rs s else s)"
  define s2 where "s2 = (if changed \<or> currentTile (queue s) \<noteq> currentTile (queue old)
                         then spawnEffect p rs s s1 else s1)"
  define s3 where "s3 = (if currentTile (queue s1) \<noteq> currentTile (queue s)
                         then spawnEffect p rs s1 s2 else s2)"
  define changed' where "changed' = (isPlaying (renderProps p (s\<lparr>tileRotation := x\<rparr>))
                                       \<noteq> isPlaying (renderProps p (old\<lparr>tileRotation := y\<rparr>)))"
  define t1 where "t1 = (if changed' \<and> isPlaying (renderProps p (s\<lparr>tileRotation := x\<rparr>))
                         then queueEffect p rs (s\<lparr>tileRotation := x\<rparr>) else s\<lparr>tileRotation := x\<rparr>)"
  define t2 where "t2 = (if changed' \<or> currentTile (queue (s\<lparr>tileRotation := x\<rparr>))
                                          \<noteq> currentTile (queue (old\<lparr>tileRotation := y\<rparr>))
                         then spawnEffect p rs (s\<lparr>tileRotation := x\<rparr>) t1 else t1)"
  define t3 where "t3 = (if currentTile (queue t1) \<noteq> currentTile (queue (s\<lparr>tileRotation := x\<rparr>))
                         then spawnEffect p rs t1 t2 else t2)"
  have r: "runEffects p rs old s = s3"
    unfolding runEffects_def Let_def s3_def s2_def s1_def changed_def by (rule refl)
  have r': "runEffects p rs (old\<lparr>tileRotation := y\<rparr>) (s\<lparr>tileRotation := x\<rparr>) = t3"
    unfolding runEffects_def Let_def t3_def t2_def t1_def changed'_def by (rule refl)
  have c: "changed' = changed"
    by (simp add: changed'_def changed_def renderProps_rot)
  have e1: "t1 = s1\<lparr>tileRotation := x\<rparr>"
    by (simp add: t1_def s1_def c queueEffect_rot renderProps_rot)
  obtain x2 where e2: "t2 = s2\<lparr>tileRotation := x2\<rparr>"
  proof (cases "changed \<or> currentTile (queue s) \<noteq> currentTile (queue old)")
    case True
    obtain w where "spawnEffect p rs (s\<lparr>tileRotation := x\<rparr>) (s1\<lparr>tileRotation := x\<rparr>)
                      = (spawnEffect p rs s s1)\<lparr>tileRotation := w\<rparr>"
      using spawnEffect_rot by blast
    with True have "t2 = s2\<lparr>tileRotation := w\<rparr>" by (simp add: t2_def s2_def e1 c)
    then show ?thesis by (rule that)
  next
    case False
    then have "t2 = s2\<lparr>tileRotation := x\<rparr>" by (simp add: t2_def s2_def e1 c)
    then show ?thesis by (rule that)
  qed
  obtain x3 where e3: "t3 = s3\<lparr>tileRotation := x3\<rparr>"
  proof (cases "currentTile (queue s1) \<noteq> currentTile (queue s)")
    case True
    obtain w where "spawnEffect p rs (s1\<lparr>tileRotation := x\<rparr>) (s2\<lparr>tileRotation := x2\<rparr>)
                      = (spawnEffect p rs s1 s2)\<lparr>tileRotation := w\<rparr>"
      using spawnEffect_rot by blast
    with True have "t3 = s3\<lparr>tileRotation := w\<rparr>" by (simp add: t3_def s3_def e1 e2)
    then show ?thesis by (rule that)
  next
    case False
    then have "t3 = s3\<lparr>tileRotation := x2\<rparr>" by (simp add: t3_def s3_def e1 e2)
    then show ?thesis by (rule that)
  qed
  show ?thesis unfolding r r' e3 by blast
qed

lemma step_rot:
  "eraseRotation (step p rs (s\<lparr>tileRotation := x\<rparr>) e) = eraseRotation (step p rs s e)"
proof -
  have "eraseRotation (handleEvent (renderProps p s) rs s e)
          = eraseRotation (handleEvent (renderProps p s) rs (s\<lparr>tileRotation := x\<rparr>) e)"
    by (simp add: handleEvent_rot)
  then obtain y where h: "handleEvent (renderProps p s) rs (s\<lparr>tileRotation := x\<rparr>) e
                    = (handleEvent (renderProps p s) rs s e)\<lparr>tileRotation := y\<rparr>"
    unfolding erase_eq_iff by blast
  obtain z where "runEffects p rs (s\<lparr>tileRotation := x\<rparr>)
                     ((handleEvent (renderProps p s) rs s e)\<lparr>tileRotation := y\<rparr>)
                   = (runEffects p rs s (handleEvent (renderProps p s) rs s e))\<lparr>tileRotation := z\<rparr>"
    using runEffects_rot_ex by blast
  with h show ?thesis
    by (simp add: step_def renderProps_rot eraseRotation_def)
qed

lemma step_erase:
  "eraseRotation s = eraseRotation t \<Longrightarrow> eraseRotation (step p rs s e) = eraseRotation (step p rs t e)"
  using step_rot by (metis erase_eq_iff)

lemma rotate_erase: "eraseRotation (step p rs s (KeyDown ArrowUp)) = eraseRotation s"
proof -
  have "runEffects p rs s (handleKeyDown (renderProps p s) rs s ArrowUp)
          = handleKeyDown (renderProps p s) rs s ArrowUp"
    by (rule runEffects_same) (simp_all add: handleKeyDown_def)
  then show ?thesis by (simp add: step_def handleKeyDown_def eraseRotation_def)
qed

lemma run_removeRotations:
  "eraseRotation s = eraseRotation t \<Longrightarrow>
   eraseRotation (run p rs s evs) = eraseRotation (run p rs t (removeRotations evs))"
proof (induction evs arbitrary: s t)
  case Nil
  then show ?case by (simp add: run_def removeRotations_def)
next
  case (Cons e es)
  show ?case
  proof (cases "e = KeyDown ArrowUp")
    case True
    have "eraseRotation (step p rs s e) = eraseRotation t"
      using True Cons.prems rotate_erase [of p rs s] by simp
    from Cons.IH [OF this] show ?thesis
      using True by (simp add: run_def removeRotations_def)
  next
    case False
    have "eraseRotation (step p rs s e) = eraseRotation (step p rs t e)"
      using Cons.prems by (rule step_erase)
    from Cons.IH [OF this] show ?thesis
      using False by (simp add: run_def removeRotations_def)
  qed
qed

text \<open>
  Claim C9. Two runs whose event lists are the same once the rotate keys are removed,
  started from states that differ at most in the rotation angle, end in states that
  differ at most in the rotation angle: the same board, tile position, queue, numbers
  and target row of the falling tile's column.
\<close>

theorem rotation_irrelevant:
  assumes "removeRotations evs1 = removeRotations evs2"
      and "eraseRotation s1 = eraseRotation s2"
  shows "eraseRotation (run p rs s1 evs1) = eraseRotation (run p rs s2 evs2) \<and>
         board (run p rs s1 evs1) = board (run p rs s2 evs2) \<and>
         tilePosition (run p rs s1 evs1) = tilePosition (run p rs s2 evs2) \<and>
         queue (run p rs s1 evs1) = queue (run p rs s2 evs2) \<and>
         boardNumbers (run p rs s1 evs1) = boardNumbers (run p rs s2 evs2) \<and>
         targetRow (hexesOf p) (board (run p rs s1 evs1)) (fst (tilePosition (run p rs s1 evs1)))
           = targetRow (hexesOf p) (board (run p rs s2 evs2)) (fst (tilePosition (run p rs s2 evs2)))"
proof -
  have "eraseRotation (run p rs s1 evs1) = eraseRotation (run p rs s1 (removeRotations evs1))"
    by (rule run_removeRotations) simp
  moreover have "eraseRotation (run p rs s2 evs2) = eraseRotation (run p rs s1 (removeRotations evs2))"
    by (rule run_removeRotations) (simp add: assms)
  ultimately have eq: "eraseRotation (run p rs s1 evs1) = eraseRotation (run p rs s2 evs2)"
    using assms by simp
  then obtain x where "run p rs s2 evs2 = (run p rs s1 evs1)\<lparr>tileRotation := x\<rparr>"
    by (auto simp: erase_eq_iff)
  with eq show ?thesis by simp
qed

theorem rotation_irrelevant_witness:
  "removeRotations [KeyDown ArrowUp, KeyDown ArrowUp, DropTimer, KeyDown Space]
     = removeRotations [DropTimer, KeyDown Space, KeyDown ArrowUp] \<and>
   tileRotation (run demoProps demoRandom (startGame demoProps demoRandom)
                   [KeyDown ArrowUp, KeyDown ArrowUp, DropTimer, KeyDown Space]) = 0 \<and>
   tileRotation (run demoProps demoRandom (startGame demoProps demoRandom)
                   [DropTimer, KeyDown Space, KeyDown ArrowUp]) = 60 \<and>
   board (run demoProps demoRandom (startGame demoProps demoRandom)
            [KeyDown ArrowUp, KeyDown ArrowUp, DropTimer, KeyDown Space])
     = board (run demoProps demoRandom (startGame demoProps demoRandom)
                [DropTimer, KeyDown Space, KeyDown ArrowUp]) \<and>
   tilePosition (run demoProps demoRandom (startGame demoProps demoRandom)
                   [KeyDown ArrowUp, KeyDown ArrowUp, DropTimer, KeyDown Space])
     = tilePosition (run demoProps demoRandom (startGame demoProps demoRandom)
                       [DropTimer, KeyDown Space, KeyDown ArrowUp])"
proof -
  have evs: "removeRotations [KeyDown ArrowUp, KeyDown ArrowUp, DropTimer, KeyDown Space]
               = removeRotations [DropTimer, KeyDown Space, KeyDown ArrowUp]"
    by (simp add: removeRotations_def)
  have rot: "tileRotation (run demoProps demoRandom (startGame demoProps demoRandom)
                   [KeyDown ArrowUp, KeyDown ArrowUp, DropTimer, KeyDown Space]) = 0 \<and>
             tileRotation (run demoProps demoRandom (startGame demoProps demoRandom)
                   [DropTimer, KeyDown Space, KeyDown ArrowUp]) = 60"
    by code_simp
  show ?thesis
    using rotation_irrelevant [OF evs refl, of demoProps demoRandom
            "startGame demoProps demoRandom"] evs rot
    by simp
qed

section \<open>Number assignment covers the eligible cells\<close>

lemma keys_update: "fst ` set (AList.update k v al) = insert k (fst ` set al)"
  by (simp add: dom_update)

lemma set_splice1: "set (splice1 i xs) \<subseteq> set xs"
  by (auto simp: splice1_def dest: in_set_takeD in_set_dropD)

lemma length_splice1: "i < length xs \<Longrightarrow> Suc (length (splice1 i xs)) = length xs"
  by (auto simp: splice1_def)

lemma randomIndex_less: "0 < b \<Longrightarrow> randomIndex rs n b < b"
  by (simp add: randomIndex_def)

lemma tryPlace_Inr:
  "av \<noteq> [] \<Longrightarrow> \<exists>placed n' nn' av'.
     tryPlace left rs nts number n nn av = Inr (placed, n', nn', av') \<and>
     fst ` set nn' \<subseteq> fst ` set nn \<union> tileKey ` set av \<and>
     set av' \<subseteq> set av \<and>
     (distinct (map fst nn) \<longrightarrow> distinct (map fst nn')) \<and>
     (if placed then Suc (length av') = length av else av' = av \<and> nn' = nn)"
proof (induction left arbitrary: n)
  case 0
  show ?case by (rule exI [of _ False]) simp
next
  case (Suc left)
  let ?i = "randomIndex rs n (length av)"
  have i: "?i < length av" using Suc.prems by (simp add: randomIndex_less)
  show ?case
  proof (cases "isValidPlacement nts (tileKey (av ! ?i)) number nn")
    case True
    have "av ! ?i \<in> set av" using i by simp
    then show ?thesis
      using True Suc.prems i set_splice1 [of ?i av]
      by (auto simp: Let_def keys_update length_splice1 distinct_update)
  next
    case False
    then show ?thesis using Suc.IH [OF Suc.prems, of "Suc n"] Suc.prems
      by (simp add: Let_def)
  qed
qed

lemma placeHigh_Inr:
  "length hs \<le> length av \<Longrightarrow> \<exists>n' nn' av'.
     placeHigh rs nts hs n nn av = Inr (n', nn', av') \<and>
     fst ` set nn' \<subseteq> fst ` set nn \<union> tileKey ` set av \<and>
     set av' \<subseteq> set av \<and>
     (distinct (map fst nn) \<longrightarrow> distinct (map fst nn'))"
proof (induction hs arbitrary: n nn av)
  case Nil
  then show ?case by simp
next
  case (Cons number rest)
  then have ne: "av \<noteq> []" by auto
  from tryPlace_Inr [OF ne, of 100 rs nts number n nn]
  obtain placed n1 nn1 av1 where
    t: "tryPlace 100 rs nts number n nn av = Inr (placed, n1, nn1, av1)" and
    k1: "fst ` set nn1 \<subseteq> fst ` set nn \<union> tileKey ` set av" and
    a1: "set av1 \<subseteq> set av" and
    d1: "distinct (map fst nn) \<longrightarrow> distinct (map fst nn1)" and
    l1: "if placed then Suc (length av1) = length av else av1 = av \<and> nn1 = nn"
    by blast
  show ?case
  proof (cases placed)
    case True
    with l1 Cons.prems have len: "length rest \<le> length av1" by simp
    from Cons.IH [OF len, of n1 nn1]
    obtain n' nn' av' where
      r: "placeHigh rs nts rest n1 nn1 av1 = Inr (n', nn', av')" and
      k: "fst ` set nn' \<subseteq> fst ` set nn1 \<union> tileKey ` set av1" and
      a: "set av' \<subseteq> set av1" and
      d: "distinct (map fst nn1) \<longrightarrow> distinct (map fst nn')"
      by blast
    have "placeHigh rs nts (number # rest) n nn av = Inr (n', nn', av')"
      using t r True by simp
    moreover have "fst ` set nn' \<subseteq> fst ` set nn \<union> tileKey ` set av"
      using k k1 a1 by blast
    moreover have "set av' \<subseteq> set av" using a a1 by blast
    ultimately show ?thesis using d d1 by blast
  next
    case False
    with l1 have same: "av1 = av" "nn1 = nn" by simp_all
    from Cons.prems ne have len: "length rest \<le> length (tl av)" by (cases av) simp_all
    from Cons.IH [OF len, of n1 "AList.update (tileKey (hd av)) number nn"]
    obtain n' nn' av' where
      r: "placeHigh rs nts rest n1 (AList.update (tileKey (hd av)) number nn) (tl av) = Inr (n', nn', av')" and
      k: "fst ` set nn' \<subseteq> fst ` set (AList.update (tileKey (hd av)) number nn) \<union> tileKey ` set (tl av)" and
      a: "set av' \<subseteq> set (tl av)" and
      d: "distinct (map fst (AList.update (tileKey (hd av)) number nn)) \<longrightarrow> distinct (map fst nn')"
      by blast
    have "placeHigh rs nts (number # rest) n nn av = Inr (n', nn', av')"
      using t r False same ne by simp
    moreover have "fst ` set nn' \<subseteq> fst ` set nn \<union> tileKey ` set av"
      using k ne by (cases av) (auto simp: keys_update)
    moreover have "set av' \<subseteq> set av" using a ne by (cases av) auto
    moreover have "distinct (map fst nn) \<longrightarrow> distinct (map fst nn')"
      using d by (simp add: distinct_update)
    ultimately show ?thesis by blast
  qed
qed

lemma placeOthers_keys:
  "fst ` set (placeOthers tiles numbers nn) \<subseteq> fst ` set nn \<union> tileKey ` set tiles \<and>
   (distinct (map fst nn) \<longrightarrow> distinct (map fst (placeOthers tiles numbers nn)))"
proof (induction tiles numbers nn rule: placeOthers.induct)
  case (1 tile tiles number numbers nn)
  then show ?case by (auto simp: keys_update distinct_update)
qed simp_all

lemma safetyPass_keys:
  "fst ` set (snd (safetyPass rs dist tiles n nn)) = fst ` set nn \<union> tileKey ` set tiles \<and>
   (distinct (map fst nn) \<longrightarrow> distinct (map fst (snd (safetyPass rs dist tiles n nn))))"
proof (induction tiles arbitrary: n nn)
  case Nil
  show ?case by simp
next
  case (Cons tile tiles)
  show ?case
  proof (cases "map_of nn (tileKey tile) \<noteq> None")
    case True
    then have mem: "tileKey tile \<in> fst ` set nn"
      by (simp add: map_of_eq_None_iff)
    have eq: "safetyPass rs dist (tile # tiles) n nn = safetyPass rs dist tiles n nn"
      using True by simp
    have B: "fst ` set nn \<union> tileKey ` set (tile # tiles) = fst ` set nn \<union> tileKey ` set tiles"
      using mem by (simp add: insert_absorb)
    from Cons.IH [of n nn] show ?thesis unfolding eq B by blast
  next
    case False
    then show ?thesis
      using Cons.IH [of "Suc n"]
      by (auto simp: Let_def keys_update distinct_update)
  qed
qed

lemma collectNumberTiles_keys: "tileKey ` set (collectNumberTiles b) = eligibleCells b"
  by (force simp: collectNumberTiles_def eligibleCells_def getsNumber_def tileKey_def
        split: option.splits)

lemma length_numberDistribution: "length (numberDistribution ms needed) \<le> needed"
  by (simp add: numberDistribution_def)

lemma assignNumbers_result:
  "\<exists>n' newNumbers.
     assignNumbers ms rs n newBoard = Inr (n', newNumbers) \<and>
     distinct (map fst newNumbers) \<and>
     dom (map_of newNumbers) = eligibleCells newBoard"
proof -
  let ?nts = "collectNumberTiles newBoard"
  let ?dist = "numberDistribution ms (length ?nts)"
  let ?high = "filter (\<lambda>x. x = 6 \<or> x = 8) ?dist"
  let ?other = "filter (\<lambda>x. x \<noteq> 6 \<and> x \<noteq> 8) ?dist"
  have "length ?high \<le> length ?dist" by simp
  then have len: "length ?high \<le> length ?nts"
    using length_numberDistribution [of ms "length ?nts"] by linarith
  from placeHigh_Inr [OF len, of rs ?nts n "[]"]
  obtain n1 nn1 av1 where
    h: "placeHigh rs ?nts ?high n [] ?nts = Inr (n1, nn1, av1)" and
    k1: "fst ` set nn1 \<subseteq> tileKey ` set ?nts" and
    a1: "set av1 \<subseteq> set ?nts" and
    d1: "distinct (map fst nn1)"
    by auto
  let ?nn2 = "placeOthers av1 (sortOrder rs ?other) nn1"
  have av: "tileKey ` set av1 \<subseteq> tileKey ` set ?nts"
    using a1 by blast
  have k2: "fst ` set ?nn2 \<subseteq> tileKey ` set ?nts" and d2: "distinct (map fst ?nn2)"
    using placeOthers_keys [of av1 "sortOrder rs ?other" nn1] k1 av d1 by blast+
  let ?res = "safetyPass rs ?dist ?nts n1 ?nn2"
  have k3: "fst ` set (snd ?res) = tileKey ` set ?nts" and d3: "distinct (map fst (snd ?res))"
    using safetyPass_keys [of rs ?dist ?nts n1 ?nn2] k2 d2 by auto
  have run: "assignNumbers ms rs n newBoard = Inr (fst ?res, snd ?res)"
    by (simp only: assignNumbers_def Let_def h sum.case prod.case prod.collapse)
  have "dom (map_of (snd ?res)) = fst ` set (snd ?res)"
    by (rule dom_map_of_conv_image_fst)
  then have "dom (map_of (snd ?res)) = eligibleCells newBoard"
    by (simp only: k3 collectNumberTiles_keys)
  with run d3 show ?thesis by blast
qed

text \<open>
  Claim C2. On every board, for every map size and every random source, the number
  generation returns (it does not throw), and the map it returns has exactly one entry
  for each cell whose terrain is neither desert nor water (gold included) and no entry
  for any other cell.
\<close>

theorem assignNumbers_total:
  "\<exists>n' newNumbers.
     assignNumbers ms rs n newBoard = Inr (n', newNumbers) \<and>
     distinct (map fst newNumbers) \<and>
     dom (map_of newNumbers) = eligibleCells newBoard"
  by (rule assignNumbers_result)

theorem assignNumbers_total_witness:
  "\<exists>n' newNumbers.
     assignNumbers 2 demoRandom 0 demoBoard = Inr (n', newNumbers) \<and>
     distinct (map fst newNumbers) \<and>
     dom (map_of newNumbers) = {(0, 1), (0, 0)}"
proof -
  have cells: "eligibleCells demoBoard = {(0, 1), (0, 0)}"
    by code_simp
  from assignNumbers_total [of 2 demoRandom 0 demoBoard]
  show ?thesis unfolding cells .
qed

section \<open>Columns and the target row\<close>

lemma set_columnHexes:
  "set (columnHexes hexes col) = {h \<in> set hexes. \<not> isWater h \<and> q h = col}"
  by (auto simp: columnHexes_def)

lemma sorted_columnHexes: "sorted (map r (columnHexes hexes col))"
  by (simp add: columnHexes_def)

lemma columnHexes_rows:
  assumes "\<And>h. h \<in> set hexes \<Longrightarrow> \<not> isWater h"
  shows "(col, b) \<in> landCells hexes \<longleftrightarrow> b \<in> r ` set (columnHexes hexes col)"
  using assms by (auto simp: landCells_def set_columnHexes)

lemma columnHexes_top:
  assumes "h \<in> set (columnHexes hexes col)"
  shows "r (columnHexes hexes col ! 0) \<le> r h"
proof -
  let ?cs = "columnHexes hexes col"
  from assms obtain i where i: "i < length ?cs" "?cs ! i = h"
    by (auto simp: in_set_conv_nth)
  have "map r ?cs ! 0 \<le> map r ?cs ! i"
    using sorted_columnHexes [of hexes col] i by (intro sorted_nth_mono) simp_all
  moreover have "0 < length ?cs" using i by auto
  ultimately show ?thesis using i by (simp add: nth_map)
qed





lemma board_spawnNewTile: "board (spawnNewTile p rs c s) = board s"
  by (simp add: spawnNewTile_def Let_def)

lemma queue_spawnNewTile: "queue (spawnNewTile p rs c s) = queue s"
  by (simp add: spawnNewTile_def Let_def)

lemma showFinalBoard_spawnNewTile: "showFinalBoard (spawnNewTile p rs c s) = showFinalBoard s"
  by (simp add: spawnNewTile_def Let_def)





lemma columnHexes_q: "h \<in> set (columnHexes hexes col) \<Longrightarrow> q h = col"
  by (simp add: set_columnHexes)


lemma board_queueEffect: "board (queueEffect p rs s) = board s"
  by (simp add: queueEffect_def split: prod.splits)

lemma board_spawnEffect: "board (spawnEffect p rs rd s) = board s"
  by (simp add: spawnEffect_def board_spawnNewTile)

lemma board_runEffects: "board (runEffects p rs old s) = board s"
  by (simp add: runEffects_def Let_def board_spawnEffect board_queueEffect)

lemma board_step: "board (step p rs s e) = board (handleEvent (renderProps p s) rs s e)"
  by (simp add: step_def board_runEffects)










section \<open>What a step does to the board and the queue\<close>

lemma unchanged_refl: "unchanged s s"
  by (simp add: unchanged_def)

lemma unchanged_spawnNewTile: "unchanged s (spawnNewTile p rs c s)"
  by (simp add: unchanged_def spawnNewTile_def Let_def)

lemma commits_renderProps: "commits (renderProps p s0) s s' = commits p s s'"
  by (simp add: commits_def)

lemma getNextTile_long:
  assumes "1 < length (tileQueue tq)"
  shows "fst (getNextTile tq) \<noteq> None \<and>
         tileQueue (snd (getNextTile tq)) = tl (tileQueue tq) \<and>
         currentTile (snd (getNextTile tq)) \<noteq> None"
  using assms by (simp add: getNextTile_def Let_def)

lemma getNextTile_short: "length (tileQueue tq) \<le> 1 \<Longrightarrow> getNextTile tq = (None, tq)"
  by (simp add: getNextTile_def)

lemma placeTile_effect:
  assumes t: "targetRow (hexesOf p) (board s) col = Some t"
  shows "unchanged s (placeTile p rs s col t) \<or> commits p s (placeTile p rs s col t)"
proof (cases "currentTile (queue s)")
  case None
  then show ?thesis by (simp add: placeTile_def unchanged_refl)
next
  case (Some cur)
  show ?thesis
  proof (cases "isValidPosition (hexesOf p) col t \<and> \<not> occupied (board s) (col, t)")
    case False
    then have "placeTile p rs s col t = s \<or>
               placeTile p rs s col t = spawnNewTile p rs (hasMoreTiles (queue s)) s"
      using Some by (auto simp: placeTile_def)
    then show ?thesis using unchanged_refl unchanged_spawnNewTile by metis
  next
    case True
    let ?nb = "AList.update (col, t) \<lparr>q = col, r = t, terrain = Some cur, isWater = False\<rparr> (board s)"
    show ?thesis
    proof (cases "length (tileQueue (queue s)) \<le> 1")
      case short: True
      have "placeTile p rs s col t
              = s\<lparr>board := ?nb, queue := queue s, numberTimers := numberTimers s @ [?nb]\<rparr>"
        using Some True short by (simp add: placeTile_def getNextTile_short Let_def)
      then have "commits p s (placeTile p rs s col t)"
        using Some True short t by (auto simp: commits_def)
      then show ?thesis ..
    next
      case long: False
      then have l: "1 < length (tileQueue (queue s))" by simp
      obtain nx tq' where g: "getNextTile (queue s) = (nx, tq')" by (cases "getNextTile (queue s)")
      with getNextTile_long [OF l] obtain x where nx: "nx = Some x" by auto
      have "placeTile p rs s col t
              = s\<lparr>board := ?nb, queue := tq',
                  spawnTimers := spawnTimers s @ [(isPlaying p, hasMoreTiles (queue s))]\<rparr>"
        using Some True g nx by (simp add: placeTile_def)
      then have "board (placeTile p rs s col t) = ?nb \<and> queue (placeTile p rs s col t) = tq'"
        by simp
      then have "commits p s (placeTile p rs s col t)"
        using Some True long t g unfolding commits_def by auto
      then show ?thesis ..
    qed
  qed
qed

lemma hardDrop_effect: "unchanged s (hardDrop p rs s) \<or> commits p s (hardDrop p rs s)"
  using placeTile_effect [of p s "fst (tilePosition s)" _ rs]
  by (auto simp: hardDrop_def unchanged_refl split: option.splits)

lemma autoDropTile_effect:
  "unchanged s (autoDropTile p rs s) \<or> commits p s (autoDropTile p rs s)"
proof (cases "currentTile (queue s) = None \<or> \<not> isPlaying p \<or> showFinalBoard s")
  case True
  then show ?thesis by (auto simp: autoDropTile_def unchanged_refl)
next
  case False
  note guard = False
  obtain a b where pos: "tilePosition s = (a, b)" by (cases "tilePosition s")
  show ?thesis
  proof (cases "targetRow (hexesOf p) (board s) a")
    case None
    then show ?thesis using guard pos by (auto simp: autoDropTile_def unchanged_refl)
  next
    case (Some t)
    show ?thesis
    proof (cases "b + 1 \<ge> t")
      case True
      then have "autoDropTile p rs s = placeTile p rs s a t"
        using guard pos Some by (auto simp: autoDropTile_def)
      then show ?thesis using placeTile_effect [of p s a t rs] Some by simp
    next
      case False
      then have "autoDropTile p rs s = s\<lparr>tilePosition := (a, b + 1)\<rparr>"
        using guard pos Some by (auto simp: autoDropTile_def)
      then show ?thesis by (simp add: unchanged_def)
    qed
  qed
qed

lemma handleBoardClick_effect: "unchanged s (handleBoardClick p rs s a b)"
  by (simp add: handleBoardClick_def unchanged_refl unchanged_spawnNewTile) (simp add: unchanged_def)

lemma handleKeyDown_effect:
  "unchanged s (handleKeyDown p rs s k) \<or> commits p s (handleKeyDown p rs s k)"
proof (cases "currentTile (queue s) = None \<or> \<not> isPlaying p \<or> showFinalBoard s")
  case True
  then show ?thesis by (auto simp: handleKeyDown_def unchanged_refl)
next
  case False
  then show ?thesis
    using hardDrop_effect [of s p rs]
    by (cases k) (auto simp: handleKeyDown_def unchanged_def)
qed

lemma fireSpawnTimer_effect: "unchanged s (fireSpawnTimer p rs s)"
  by (simp add: fireSpawnTimer_def unchanged_def board_spawnNewTile queue_spawnNewTile
        split: list.splits prod.splits)

lemma fireNumberTimer_effect: "unchanged s (fireNumberTimer p rs s)"
  by (simp add: fireNumberTimer_def unchanged_def split: list.splits sum.splits prod.splits)

lemma handleEvent_effect:
  assumes "\<not> sessionButton e"
  shows "unchanged s (handleEvent p rs s e) \<or> commits p s (handleEvent p rs s e)"
proof (cases e)
  case (KeyDown k)
  then show ?thesis using handleKeyDown_effect [of s p rs k] by simp
next
  case (KeyUp k)
  then show ?thesis by (simp add: handleKeyUp_def unchanged_def)
next
  case (BoardClick a b)
  then show ?thesis using handleBoardClick_effect [of s p rs a b] by simp
next
  case DropTimer
  then show ?thesis using autoDropTile_effect [of s p rs] by simp
next
  case SpeedTimer
  then show ?thesis by (simp add: speedUp_def unchanged_def)
next
  case SpawnTimer
  then show ?thesis by (simp add: fireSpawnTimer_effect)
next
  case NumberTimer
  then show ?thesis by (simp add: fireNumberTimer_effect)
next
  case StartGame
  with assms show ?thesis by (simp add: sessionButton_def)
next
  case PauseGame
  with assms show ?thesis by (simp add: sessionButton_def)
next
  case ResetGame
  with assms show ?thesis by (simp add: sessionButton_def)
next
  case ViewBoard
  then show ?thesis by (simp add: viewBoard_def unchanged_def)
qed

lemma flags_spawnNewTile:
  "playing (spawnNewTile p rs c s) = playing s \<and> paused (spawnNewTile p rs c s) = paused s"
  by (simp add: spawnNewTile_def Let_def)

lemma flags_placeTile:
  "playing (placeTile p rs s a b) = playing s \<and> paused (placeTile p rs s a b) = paused s"
  by (simp add: placeTile_def Let_def flags_spawnNewTile split: option.splits prod.splits)

lemma flags_hardDrop:
  "playing (hardDrop p rs s) = playing s \<and> paused (hardDrop p rs s) = paused s"
  by (simp add: hardDrop_def flags_placeTile split: option.splits)

lemma flags_autoDropTile:
  "playing (autoDropTile p rs s) = playing s \<and> paused (autoDropTile p rs s) = paused s"
  by (simp add: autoDropTile_def flags_placeTile Let_def split: option.splits prod.splits)

lemma flags_handleKeyDown:
  "playing (handleKeyDown p rs s k) = playing s \<and> paused (handleKeyDown p rs s k) = paused s"
  by (cases k) (simp_all add: handleKeyDown_def flags_hardDrop)

lemma flags_handleEvent:
  assumes "\<not> sessionButton e"
  shows "isPlaying (renderProps p (handleEvent p' rs s e)) \<longrightarrow> isPlaying (renderProps p s)"
proof (cases e)
  case (KeyDown k)
  then show ?thesis by (simp add: flags_handleKeyDown)
next
  case (KeyUp k)
  then show ?thesis by (simp add: handleKeyUp_def)
next
  case (BoardClick a b)
  then show ?thesis by (simp add: handleBoardClick_def flags_spawnNewTile)
next
  case DropTimer
  then show ?thesis by (simp add: flags_autoDropTile)
next
  case SpeedTimer
  then show ?thesis by (simp add: speedUp_def)
next
  case SpawnTimer
  then show ?thesis
    by (simp add: fireSpawnTimer_def flags_spawnNewTile split: list.splits prod.splits)
next
  case NumberTimer
  then show ?thesis
    by (simp add: fireNumberTimer_def split: list.splits sum.splits prod.splits)
next
  case StartGame
  with assms show ?thesis by (simp add: sessionButton_def)
next
  case PauseGame
  with assms show ?thesis by (simp add: sessionButton_def)
next
  case ResetGame
  with assms show ?thesis by (simp add: sessionButton_def)
next
  case ViewBoard
  then show ?thesis by (simp add: viewBoard_def)
qed

lemma queue_spawnEffect: "queue (spawnEffect p rs rd s) = queue s"
  by (simp add: spawnEffect_def queue_spawnNewTile)

lemma queue_runEffects:
  assumes "isPlaying (renderProps p s) \<longrightarrow> isPlaying (renderProps p old)"
  shows "queue (runEffects p rs old s) = queue s"
proof -
  have c: "(isPlaying (renderProps p s) \<noteq> isPlaying (renderProps p old) \<and>
            isPlaying (renderProps p s)) = False"
    using assms by blast
  show ?thesis
    unfolding runEffects_def Let_def c by (simp add: queue_spawnEffect)
qed

lemma step_effect:
  assumes "\<not> sessionButton e"
  shows "unchanged s (step p rs s e) \<or> commits p s (step p rs s e)"
proof -
  let ?h = "handleEvent (renderProps p s) rs s e"
  have b: "board (step p rs s e) = board ?h"
    by (rule board_step)
  have "queue (runEffects p rs s ?h) = queue ?h"
    using flags_handleEvent [OF assms] by (intro queue_runEffects) blast
  then have q: "queue (step p rs s e) = queue ?h"
    by (simp add: step_def)
  from handleEvent_effect [OF assms, of s "renderProps p s" rs]
  have "unchanged s ?h \<or> commits p s ?h"
    by (simp add: commits_renderProps)
  then show ?thesis
  proof
    assume "unchanged s ?h"
    then have "unchanged s (step p rs s e)" unfolding unchanged_def b q .
    then show ?thesis ..
  next
    assume "commits p s ?h"
    then have "commits p s (step p rs s e)" unfolding commits_def b q .
    then show ?thesis ..
  qed
qed

lemma board_handleEvent_button:
  assumes "sessionButton e"
  shows "board (handleEvent p rs s e) = board s \<or> board (handleEvent p rs s e) = []"
  using assms
  by (auto simp: sessionButton_def handleStartGame_def handlePauseGame_def handleResetGame_def
        resetEffect_def)

section \<open>Board entries\<close>

lemma occupied_hasTerrain: "hasTerrain b \<Longrightarrow> occupied b k \<longleftrightarrow> k \<in> fst ` set b"
proof -
  assume h: "hasTerrain b"
  show ?thesis
  proof (cases "map_of b k")
    case None
    then have "k \<notin> fst ` set b" by (simp add: map_of_eq_None_iff)
    with None show ?thesis by (simp add: occupied_def)
  next
    case (Some hex)
    then have "(k, hex) \<in> set b" by (rule map_of_SomeD)
    with h have "terrain hex \<noteq> None" by (auto simp: hasTerrain_def list_all_iff)
    moreover have "k \<in> fst ` set b" using map_of_SomeD [OF Some] by force
    ultimately show ?thesis using Some by (simp add: occupied_def)
  qed
qed

lemma length_update_new:
  "k \<notin> fst ` set al \<Longrightarrow> length (AList.update k v al) = Suc (length al)"
  by (induction al) auto

lemma hasTerrain_update:
  "hasTerrain b \<Longrightarrow> terrain hex \<noteq> None \<Longrightarrow> hasTerrain (AList.update k hex b)"
  by (induction b) (auto simp: hasTerrain_def)

lemma occupied_update:
  "terrain hex \<noteq> None \<Longrightarrow> occupied (AList.update k hex b) k' \<longleftrightarrow> k' = k \<or> occupied b k'"
  by (simp add: occupied_def update_conv')

section \<open>The shape of the layout\<close>

lemma landCells_all_land:
  assumes "\<And>h. h \<in> set hexes \<Longrightarrow> \<not> isWater h"
  shows "landCells hexes = (\<lambda>h. (q h, r h)) ` set hexes"
  using assms by (auto simp: landCells_def)

lemma classic_cells:
  "(a, b) \<in> set classicLandHexes \<longleftrightarrow> \<bar>a\<bar> \<le> 2 \<and> \<bar>b\<bar> \<le> 2 \<and> \<bar>a + b\<bar> \<le> 2"
proof
  assume "(a, b) \<in> set classicLandHexes"
  then show "\<bar>a\<bar> \<le> 2 \<and> \<bar>b\<bar> \<le> 2 \<and> \<bar>a + b\<bar> \<le> 2"
    by (auto simp: classicLandHexes_def)
next
  assume h: "\<bar>a\<bar> \<le> 2 \<and> \<bar>b\<bar> \<le> 2 \<and> \<bar>a + b\<bar> \<le> 2"
  then have "a = - 2 \<or> a = - 1 \<or> a = 0 \<or> a = 1 \<or> a = 2" by linarith
  moreover from h have "b = - 2 \<or> b = - 1 \<or> b = 0 \<or> b = 1 \<or> b = 2" by linarith
  ultimately show "(a, b) \<in> set classicLandHexes"
    using h by (elim disjE; simp add: classicLandHexes_def)
qed

lemma hex_range:
  "(- n \<le> a \<and> a \<le> n \<and> max (- n) (- a - n) \<le> b \<and> b \<le> min n (- a + n) \<and>
    \<bar>a\<bar> \<le> n \<and> \<bar>b\<bar> \<le> n \<and> \<bar>- a - b\<bar> \<le> n)
   \<longleftrightarrow> (\<bar>a\<bar> \<le> n \<and> \<bar>b\<bar> \<le> n \<and> \<bar>a + b\<bar> \<le> (n::int))"
  by (auto simp: abs_le_iff)

lemma hex_range_max:
  "(- n \<le> a \<and> a \<le> n \<and> max (- n) (- a - n) \<le> b \<and> b \<le> min n (- a + n) \<and>
    max (max \<bar>a\<bar> \<bar>b\<bar>) \<bar>- a - b\<bar> \<le> n)
   \<longleftrightarrow> (\<bar>a\<bar> \<le> n \<and> \<bar>b\<bar> \<le> n \<and> \<bar>a + b\<bar> \<le> (n::int))"
  by (auto simp: abs_le_iff)

lemma loop_cells:
  "(a, b) \<in> (\<lambda>h. (q h, r h)) ` set (concat (map (\<lambda>a. map (\<lambda>b. landHex a b)
                        (filter (P a) [lo a .. hi a])) [- n .. n]))
   \<longleftrightarrow> - n \<le> a \<and> a \<le> n \<and> lo a \<le> b \<and> b \<le> hi a \<and> P a b"
  by (auto simp: landHex_def image_iff)

lemma cells_generateCatanBoard:
  "(a, b) \<in> landCells (generateCatanBoard sz) \<longleftrightarrow> \<bar>a\<bar> \<le> sz \<and> \<bar>b\<bar> \<le> sz \<and> \<bar>a + b\<bar> \<le> sz"
proof -
  have "landCells (generateCatanBoard sz) = (\<lambda>h. (q h, r h)) ` set (generateCatanBoard sz)"
    by (rule landCells_all_land) (rule generateCatanBoard_land)
  then have land: "(a, b) \<in> landCells (generateCatanBoard sz)
                   \<longleftrightarrow> (a, b) \<in> (\<lambda>h. (q h, r h)) ` set (generateCatanBoard sz)"
    by simp
  consider "sz = 2" | "sz = 3" | "sz = 4" | "sz \<noteq> 2 \<and> sz \<noteq> 3 \<and> sz \<noteq> 4" by blast
  then show ?thesis
  proof cases
    case 1
    then have g: "generateCatanBoard sz = map (\<lambda>(a, b). landHex a b) classicLandHexes"
      by (simp add: generateCatanBoard_def)
    have "(a, b) \<in> (\<lambda>h. (q h, r h)) ` set (map (\<lambda>(a, b). landHex a b) classicLandHexes)
          \<longleftrightarrow> (a, b) \<in> set classicLandHexes"
      by (force simp: landHex_def image_iff)
    then have "(a, b) \<in> (\<lambda>h. (q h, r h)) ` set (generateCatanBoard sz)
               \<longleftrightarrow> \<bar>a\<bar> \<le> sz \<and> \<bar>b\<bar> \<le> sz \<and> \<bar>a + b\<bar> \<le> sz"
      unfolding g using 1 by (simp only: classic_cells)
    with land show ?thesis by simp
  next
    case 2
    then have g: "generateCatanBoard sz =
        concat (map (\<lambda>a. map (\<lambda>b. landHex a b)
                        (filter (\<lambda>b. \<bar>a\<bar> \<le> 3 \<and> \<bar>b\<bar> \<le> 3 \<and> \<bar>- a - b\<bar> \<le> 3)
                                [max (- 3) (- a - 3) .. min 3 (- a + 3)]))
                    [- 3 .. 3])"
      by (simp add: generateCatanBoard_def)
    have "(a, b) \<in> (\<lambda>h. (q h, r h)) ` set (generateCatanBoard sz)
            \<longleftrightarrow> \<bar>a\<bar> \<le> sz \<and> \<bar>b\<bar> \<le> sz \<and> \<bar>a + b\<bar> \<le> sz"
      unfolding g loop_cells using hex_range [of 3 a b] 2 by simp
    with land show ?thesis by simp
  next
    case 3
    then have g: "generateCatanBoard sz =
        concat (map (\<lambda>a. map (\<lambda>b. landHex a b)
                        (filter (\<lambda>b. \<bar>a\<bar> \<le> 4 \<and> \<bar>b\<bar> \<le> 4 \<and> \<bar>- a - b\<bar> \<le> 4)
                                [max (- 4) (- a - 4) .. min 4 (- a + 4)]))
                    [- 4 .. 4])"
      by (simp add: generateCatanBoard_def)
    have "(a, b) \<in> (\<lambda>h. (q h, r h)) ` set (generateCatanBoard sz)
            \<longleftrightarrow> \<bar>a\<bar> \<le> sz \<and> \<bar>b\<bar> \<le> sz \<and> \<bar>a + b\<bar> \<le> sz"
      unfolding g loop_cells using hex_range [of 4 a b] 3 by simp
    with land show ?thesis by simp
  next
    case 4
    then have g: "generateCatanBoard sz =
        concat (map (\<lambda>a. map (\<lambda>b. landHex a b)
                        (filter (\<lambda>b. max (max \<bar>a\<bar> \<bar>b\<bar>) \<bar>- a - b\<bar> \<le> sz)
                                [max (- sz) (- a - sz) .. min sz (- a + sz)]))
                    [- sz .. sz])"
      by (simp add: generateCatanBoard_def)
    have "(a, b) \<in> (\<lambda>h. (q h, r h)) ` set (generateCatanBoard sz)
            \<longleftrightarrow> \<bar>a\<bar> \<le> sz \<and> \<bar>b\<bar> \<le> sz \<and> \<bar>a + b\<bar> \<le> sz"
      unfolding g loop_cells using hex_range_max [of sz a b] by simp
    with land show ?thesis by simp
  qed
qed


section \<open>Columns fill from the bottom\<close>

lemma scanColumn_result:
  "(\<forall>j. i \<le> j \<and> j < length cs \<longrightarrow> \<not> occupied b (q (cs ! j), r (cs ! j))) \<and>
     scanColumn b cs i t0 = t0
   \<or> (\<exists>j. i \<le> j \<and> j < length cs \<and> occupied b (q (cs ! j), r (cs ! j)) \<and>
          scanColumn b cs i t0 = (if j = 0 then r (cs ! 0) - 1 else r (cs ! (j - 1))))"
proof (induction b cs i t0 rule: scanColumn.induct)
  case (1 b cs i t0)
  show ?case
  proof (cases "i < length cs")
    case False
    then have "scanColumn b cs i t0 = t0"
      by (simp add: scanColumn.simps [of b cs i])
    moreover have "\<forall>j. i \<le> j \<and> j < length cs \<longrightarrow> \<not> occupied b (q (cs ! j), r (cs ! j))"
      using False by auto
    ultimately show ?thesis by blast
  next
    case True
    note lt = True
    show ?thesis
    proof (cases "occupied b (q (cs ! i), r (cs ! i))")
      case True
      then have "scanColumn b cs i t0 = (if i = 0 then r (cs ! 0) - 1 else r (cs ! (i - 1)))"
        using lt by (simp add: scanColumn.simps [of b cs i])
      with True lt show ?thesis by blast
    next
      case False
      then have eq: "scanColumn b cs i t0 = scanColumn b cs (i + 1) t0"
        using lt by (simp add: scanColumn.simps [of b cs i])
      from "1.IH" [OF lt refl False] show ?thesis
      proof
        assume a: "(\<forall>j. i + 1 \<le> j \<and> j < length cs \<longrightarrow> \<not> occupied b (q (cs ! j), r (cs ! j))) \<and>
                   scanColumn b cs (i + 1) t0 = t0"
        have "\<forall>j. i \<le> j \<and> j < length cs \<longrightarrow> \<not> occupied b (q (cs ! j), r (cs ! j))"
        proof (intro allI impI)
          fix j assume "i \<le> j \<and> j < length cs"
          then have "j = i \<or> (i + 1 \<le> j \<and> j < length cs)" by auto
          with a False show "\<not> occupied b (q (cs ! j), r (cs ! j))" by blast
        qed
        with a eq show ?thesis by simp
      next
        assume "\<exists>j. i + 1 \<le> j \<and> j < length cs \<and> occupied b (q (cs ! j), r (cs ! j)) \<and>
                  scanColumn b cs (i + 1) t0 = (if j = 0 then r (cs ! 0) - 1 else r (cs ! (j - 1)))"
        then obtain j where "i + 1 \<le> j" "j < length cs" "occupied b (q (cs ! j), r (cs ! j))"
          "scanColumn b cs (i + 1) t0 = (if j = 0 then r (cs ! 0) - 1 else r (cs ! (j - 1)))"
          by blast
        then have "i \<le> j \<and> j < length cs \<and> occupied b (q (cs ! j), r (cs ! j)) \<and>
                   scanColumn b cs i t0 = (if j = 0 then r (cs ! 0) - 1 else r (cs ! (j - 1)))"
          using eq by simp
        then show ?thesis by blast
      qed
    qed
  qed
qed

lemma columnHexes_nth_mono:
  "i \<le> j \<Longrightarrow> j < length (columnHexes hexes col) \<Longrightarrow>
   r (columnHexes hexes col ! i) \<le> r (columnHexes hexes col ! j)"
proof -
  assume le: "i \<le> j" and lt: "j < length (columnHexes hexes col)"
  have "map r (columnHexes hexes col) ! i \<le> map r (columnHexes hexes col) ! j"
    using le lt by (intro sorted_nth_mono sorted_columnHexes) simp_all
  then show ?thesis using le lt by simp
qed

lemma targetRow_above:
  assumes land: "\<And>h. h \<in> set hexes \<Longrightarrow> \<not> isWater h"
      and t: "targetRow hexes b col = Some t"
      and valid: "(col, t) \<in> landCells hexes"
      and cell: "(col, b2) \<in> landCells hexes"
      and less: "t < b2"
  shows "\<exists>b1. b1 \<le> b2 \<and> (col, b1) \<in> landCells hexes \<and> occupied b (col, b1)"
proof -
  let ?cs = "columnHexes hexes col"
  from t have ne: "?cs \<noteq> []" and
    scan: "scanColumn b ?cs 0 (r (?cs ! (length ?cs - 1))) = t"
    by (auto simp: targetRow_def Let_def split: if_splits)
  from cell obtain m where m: "m < length ?cs" "r (?cs ! m) = b2"
    using columnHexes_rows [of hexes col b2] land by (auto simp: in_set_conv_nth)
  from valid obtain v where v: "v < length ?cs" "r (?cs ! v) = t"
    using columnHexes_rows [of hexes col t] land by (auto simp: in_set_conv_nth)
  from scanColumn_result [of 0 ?cs b "r (?cs ! (length ?cs - 1))"] show ?thesis
  proof
    assume "(\<forall>j. 0 \<le> j \<and> j < length ?cs \<longrightarrow> \<not> occupied b (q (?cs ! j), r (?cs ! j))) \<and>
            scanColumn b ?cs 0 (r (?cs ! (length ?cs - 1))) = r (?cs ! (length ?cs - 1))"
    with scan have "t = r (?cs ! (length ?cs - 1))" by simp
    moreover have "r (?cs ! m) \<le> r (?cs ! (length ?cs - 1))"
      using m by (intro columnHexes_nth_mono) auto
    ultimately show ?thesis using m less by simp
  next
    assume "\<exists>j. 0 \<le> j \<and> j < length ?cs \<and> occupied b (q (?cs ! j), r (?cs ! j)) \<and>
              scanColumn b ?cs 0 (r (?cs ! (length ?cs - 1)))
                = (if j = 0 then r (?cs ! 0) - 1 else r (?cs ! (j - 1)))"
    then obtain j where j: "j < length ?cs" "occupied b (q (?cs ! j), r (?cs ! j))"
      and tj: "t = (if j = 0 then r (?cs ! 0) - 1 else r (?cs ! (j - 1)))"
      using scan by auto
    show ?thesis
    proof (cases "j = 0")
      case True
      have "r (?cs ! 0) \<le> r (?cs ! v)" using v by (intro columnHexes_nth_mono) auto
      with True tj v show ?thesis by simp
    next
      case False
      have "\<not> m \<le> j - 1"
      proof
        assume "m \<le> j - 1"
        then have "r (?cs ! m) \<le> r (?cs ! (j - 1))"
          using j by (intro columnHexes_nth_mono) auto
        with False tj m less show False by simp
      qed
      with False have "j \<le> m" by simp
      then have "r (?cs ! j) \<le> r (?cs ! m)" using m by (intro columnHexes_nth_mono) auto
      then have le: "r (?cs ! j) \<le> b2" using m by simp
      have mem: "?cs ! j \<in> set ?cs" using j by simp
      then have qj: "q (?cs ! j) = col" by (rule columnHexes_q)
      have "(col, r (?cs ! j)) \<in> landCells hexes"
        using columnHexes_rows [of hexes col "r (?cs ! j)"] land mem by blast
      with le j qj show ?thesis by auto
    qed
  qed
qed

lemma occupied_keys: "occupied b k \<Longrightarrow> k \<in> fst ` set b"
proof -
  assume "occupied b k"
  then have "map_of b k \<noteq> None" by (cases "map_of b k") (auto simp: occupied_def)
  then show ?thesis by (simp add: map_of_eq_None_iff)
qed

lemma stackInv_step:
  assumes inv: "stackInv p s"
  shows "stackInv p (step p rs s e)"
proof -
  let ?s' = "step p rs s e"
  have land: "\<And>h. h \<in> set (hexesOf p) \<Longrightarrow> \<not> isWater h"
    by (simp add: hexesOf_def generateCatanBoard_land)
  have same: "stackInv p ?s'" if "board ?s' = board s"
  proof -
    from that have "stackInv p ?s' = stackInv p s" by (simp only: stackInv_def)
    with inv show ?thesis by blast
  qed
  have empty: "stackInv p ?s'" if "board ?s' = []"
    using that by (simp add: stackInv_def occupied_def)
  have "board ?s' = board s \<or> board ?s' = [] \<or> commits p s ?s'"
  proof (cases "sessionButton e")
    case True
    then show ?thesis
      using board_handleEvent_button [of e "renderProps p s" rs s] by (auto simp: board_step)
  next
    case False
    then show ?thesis using step_effect [of e s p rs] by (auto simp: unchanged_def)
  qed
  then consider "board ?s' = board s" | "board ?s' = []" | "commits p s ?s'" by blast
  then show ?thesis
  proof cases
    case 1
    then show ?thesis by (rule same)
  next
    case 2
    then show ?thesis by (rule empty)
  next
    case 3
    then obtain col t cur where
      t: "targetRow (hexesOf p) (board s) col = Some t" and
      valid: "isValidPosition (hexesOf p) col t" and
      b': "board ?s' = AList.update (col, t)
             \<lparr>q = col, r = t, terrain = Some cur, isWater = False\<rparr> (board s)"
      unfolding commits_def by blast
    from valid have cell: "(col, t) \<in> landCells (hexesOf p)"
      using isValidPosition_land [of "hexesOf p" col t] land by blast
    have occ': "\<And>k. occupied (board ?s') k \<longleftrightarrow> k = (col, t) \<or> occupied (board s) k"
      by (simp add: b' occupied_update)
    from inv have d: "distinct (map fst (board s))"
      unfolding stackInv_def by blast
    from inv have "\<forall>k. occupied (board s) k \<longrightarrow> k \<in> landCells (hexesOf p)"
      unfolding stackInv_def by blast
    then have cells: "\<And>k. occupied (board s) k \<Longrightarrow> k \<in> landCells (hexesOf p)"
      by blast
    from inv have "\<forall>c b1 b2. occupied (board s) (c, b1) \<and> (c, b2) \<in> landCells (hexesOf p) \<and> b1 \<le> b2
                     \<longrightarrow> occupied (board s) (c, b2)"
      unfolding stackInv_def by blast
    then have closed: "\<And>c b1 b2. occupied (board s) (c, b1) \<Longrightarrow> (c, b2) \<in> landCells (hexesOf p) \<Longrightarrow>
                 b1 \<le> b2 \<Longrightarrow> occupied (board s) (c, b2)"
      by blast
    have d': "distinct (map fst (board ?s'))"
      using d by (simp add: b' distinct_update)
    have cells': "\<forall>k. occupied (board ?s') k \<longrightarrow> k \<in> landCells (hexesOf p)"
    proof (intro allI impI)
      fix k assume "occupied (board ?s') k"
      then have "k = (col, t) \<or> occupied (board s) k" by (simp add: occ')
      then show "k \<in> landCells (hexesOf p)" using cells [of k] cell by blast
    qed
    have closed': "\<forall>c b1 b2. occupied (board ?s') (c, b1) \<and> (c, b2) \<in> landCells (hexesOf p) \<and> b1 \<le> b2
                     \<longrightarrow> occupied (board ?s') (c, b2)"
    proof (intro allI impI)
      fix c b1 b2
      assume h: "occupied (board ?s') (c, b1) \<and> (c, b2) \<in> landCells (hexesOf p) \<and> b1 \<le> b2"
      show "occupied (board ?s') (c, b2)"
      proof (cases "occupied (board s) (c, b1)")
        case True
        then have "occupied (board s) (c, b2)" using h by (intro closed [of c b1 b2]) simp_all
        then show ?thesis by (simp add: occ')
      next
        case False
        with h occ' have new: "c = col" "b1 = t" by auto
        show ?thesis
        proof (cases "b2 = t")
          case True
          with new show ?thesis by (simp add: occ')
        next
          case False
          with h new have "t < b2" by simp
          moreover have c2: "(col, b2) \<in> landCells (hexesOf p)" using h new by simp
          ultimately have "\<exists>b0. b0 \<le> b2 \<and> (col, b0) \<in> landCells (hexesOf p) \<and>
                             occupied (board s) (col, b0)"
            using land t cell by (intro targetRow_above) simp_all
          then obtain b0 where b0: "b0 \<le> b2" "occupied (board s) (col, b0)" by blast
          have "occupied (board s) (col, b2)"
            using b0 c2 by (intro closed [of col b0 b2]) simp_all
          with new show ?thesis by (simp add: occ')
        qed
      qed
    qed
    from d' cells' closed' show ?thesis unfolding stackInv_def by blast
  qed
qed

lemma stackInv_run: "stackInv p s \<Longrightarrow> stackInv p (run p rs s evs)"
  unfolding run_def by (induction evs arbitrary: s) (simp_all add: stackInv_step)

lemma board_startGame: "board (startGame p rs) = []"
  by (simp add: startGame_def board_step handleStartGame_def resetGame_def)

lemma stackInv_start: "stackInv p (startGame p rs)"
  by (simp add: stackInv_def board_startGame occupied_def)


section \<open>The occupied rows of a column\<close>

lemma set_occupiedRows: "set (occupiedRows b col) = {y. occupied b (col, y)}"
proof -
  have "set (occupiedRows b col) = snd ` {k \<in> fst ` set b. fst k = col \<and> occupied b k}"
    by (simp add: occupiedRows_def)
  also have "\<dots> = {y. occupied b (col, y)}"
  proof (intro set_eqI iffI)
    fix y assume "y \<in> snd ` {k \<in> fst ` set b. fst k = col \<and> occupied b k}"
    then obtain k where "fst k = col" "occupied b k" "y = snd k" by blast
    then have "occupied b (col, y)" by (cases k) simp
    then show "y \<in> {y. occupied b (col, y)}" by simp
  next
    fix y assume "y \<in> {y. occupied b (col, y)}"
    then have o: "occupied b (col, y)" by simp
    then have "(col, y) \<in> fst ` set b" by (rule occupied_keys)
    with o have "(col, y) \<in> {k \<in> fst ` set b. fst k = col \<and> occupied b k}" by simp
    then show "y \<in> snd ` {k \<in> fst ` set b. fst k = col \<and> occupied b k}" by force
  qed
  finally show ?thesis .
qed

lemma distinct_occupiedRows:
  assumes "distinct (map fst b)"
  shows "distinct (occupiedRows b col)"
proof -
  let ?ks = "filter (\<lambda>k. fst k = col \<and> occupied b k) (map fst b)"
  have "distinct ?ks" using assms by simp
  moreover have "inj_on snd (set ?ks)"
    by (auto simp: inj_on_def)
  ultimately have "distinct (map snd ?ks)" by (simp add: distinct_map)
  then show ?thesis by (simp add: occupiedRows_def)
qed

lemma sorted_occupiedRows: "sorted (occupiedRows b col)"
  by (simp add: occupiedRows_def)

lemma column_convex:
  assumes "(col, y1) \<in> landCells (hexesOf p)"
      and "(col, y2) \<in> landCells (hexesOf p)"
      and "y1 \<le> y" and "y \<le> y2"
  shows "(col, y) \<in> landCells (hexesOf p)"
  using assms unfolding hexesOf_def cells_generateCatanBoard by linarith

lemma columnHexes_last:
  assumes "h \<in> set (columnHexes hexes col)"
  shows "r h \<le> r (last (columnHexes hexes col))"
proof -
  let ?cs = "columnHexes hexes col"
  from assms obtain i where i: "i < length ?cs" "?cs ! i = h"
    by (auto simp: in_set_conv_nth)
  then have "r (?cs ! i) \<le> r (?cs ! (length ?cs - 1))"
    by (intro columnHexes_nth_mono) auto
  moreover have "?cs \<noteq> []" using i by auto
  ultimately show ?thesis using i by (simp add: last_conv_nth)
qed

lemma interval_list:
  assumes "sorted xs" and "distinct xs" and "set xs = {lo..hi}"
  shows "xs = [lo..hi]"
  using assms by (intro sorted_distinct_set_unique) simp_all

lemma stack_rows:
  assumes inv: "stackInv p s"
  shows "if columnHexes (hexesOf p) col = [] then occupiedRows (board s) col = []
         else \<exists>lo. r (hd (columnHexes (hexesOf p) col)) \<le> lo \<and>
                occupiedRows (board s) col = [lo .. r (last (columnHexes (hexesOf p) col))]"
proof -
  let ?cs = "columnHexes (hexesOf p) col"
  let ?S = "{y. occupied (board s) (col, y)}"
  have land: "\<And>h. h \<in> set (hexesOf p) \<Longrightarrow> \<not> isWater h"
    by (simp add: hexesOf_def generateCatanBoard_land)
  have rows: "\<And>y. (col, y) \<in> landCells (hexesOf p) \<longleftrightarrow> y \<in> r ` set ?cs"
    using columnHexes_rows [of "hexesOf p" col] land by blast
  from inv have d: "distinct (map fst (board s))"
    unfolding stackInv_def by blast
  from inv have "\<forall>k. occupied (board s) k \<longrightarrow> k \<in> landCells (hexesOf p)"
    unfolding stackInv_def by blast
  then have cells: "\<And>y. y \<in> ?S \<Longrightarrow> (col, y) \<in> landCells (hexesOf p)"
    by blast
  from inv have "\<forall>c b1 b2. occupied (board s) (c, b1) \<and> (c, b2) \<in> landCells (hexesOf p) \<and> b1 \<le> b2
                   \<longrightarrow> occupied (board s) (c, b2)"
    unfolding stackInv_def by blast
  then have closed: "\<And>b1 b2. b1 \<in> ?S \<Longrightarrow> (col, b2) \<in> landCells (hexesOf p) \<Longrightarrow>
               b1 \<le> b2 \<Longrightarrow> b2 \<in> ?S"
    by blast
  show ?thesis
  proof (cases "?cs = []")
    case True
    have "?S = {}"
    proof (rule ccontr)
      assume "?S \<noteq> {}"
      then obtain y where "y \<in> ?S" by blast
      from cells [OF this] rows True show False by simp
    qed
    then have "set (occupiedRows (board s) col) = {}" by (simp only: set_occupiedRows)
    with True show ?thesis by simp
  next
    case False
    let ?top = "r (hd ?cs)" and ?bot = "r (last ?cs)"
    have topc: "(col, ?top) \<in> landCells (hexesOf p)" and botc: "(col, ?bot) \<in> landCells (hexesOf p)"
      using False rows by auto
    have bound: "\<And>y. (col, y) \<in> landCells (hexesOf p) \<Longrightarrow> ?top \<le> y \<and> y \<le> ?bot"
    proof -
      fix y assume "(col, y) \<in> landCells (hexesOf p)"
      then obtain h where h: "h \<in> set ?cs" "r h = y" using rows by auto
      have "r (?cs ! 0) \<le> r h" using h by (intro columnHexes_top)
      moreover have "r h \<le> ?bot" using h by (intro columnHexes_last)
      ultimately show "?top \<le> y \<and> y \<le> ?bot" using h False by (simp add: hd_conv_nth)
    qed
    show ?thesis
    proof (cases "?S = {}")
      case True
      then have "set (occupiedRows (board s) col) = {}" by (simp only: set_occupiedRows)
      then have "occupiedRows (board s) col = [?bot + 1 .. ?bot]" by simp
      moreover have "?top \<le> ?bot + 1" using bound [OF botc] by simp
      ultimately show ?thesis using False by auto
    next
      case ne: False
      have fin: "finite ?S"
        using set_occupiedRows [of "board s" col] by (metis List.finite_set)
      let ?lo = "Min ?S"
      have lo: "?lo \<in> ?S" using fin ne by (rule Min_in)
      have "?S = {?lo .. ?bot}"
      proof (intro set_eqI iffI)
        fix y assume y: "y \<in> ?S"
        then have "?lo \<le> y" using fin by (intro Min_le)
        moreover have "y \<le> ?bot" using bound [OF cells [OF y]] by simp
        ultimately show "y \<in> {?lo .. ?bot}" by simp
      next
        fix y assume "y \<in> {?lo .. ?bot}"
        then have y: "?lo \<le> y" "y \<le> ?bot" by simp_all
        have "(col, y) \<in> landCells (hexesOf p)"
          by (rule column_convex [OF cells [OF lo] botc y])
        then show "y \<in> ?S" by (rule closed [OF lo _ y(1)])
      qed
      then have "set (occupiedRows (board s) col) = {?lo .. ?bot}"
        by (simp only: set_occupiedRows)
      then have "occupiedRows (board s) col = [?lo .. ?bot]"
        using sorted_occupiedRows distinct_occupiedRows [OF d] by (intro interval_list)
      moreover have "?top \<le> ?lo" using bound [OF cells [OF lo]] by simp
      ultimately show ?thesis using False by auto
    qed
  qed
qed

text \<open>
  Claim C4. In a session started on the empty board, after every sequence of events
  (drop-timer ticks, hard drops, timeouts, the parent's buttons and all other input), the
  occupied rows of every column,
  sorted, are a block of consecutive rows that ends at the bottom-most land row of the
  column and starts no higher than its top row: no land cell below a tile is empty. A
  column without land cells has no occupied row.
\<close>

theorem column_stack:
  "if columnHexes (hexesOf p) col = []
   then occupiedRows (board (run p rs (startGame p rs) evs)) col = []
   else \<exists>lo. r (hd (columnHexes (hexesOf p) col)) \<le> lo \<and>
          occupiedRows (board (run p rs (startGame p rs) evs)) col
            = [lo .. r (last (columnHexes (hexesOf p) col))]"
  by (intro stack_rows stackInv_run stackInv_start)

theorem column_stack_witness:
  "columnHexes (hexesOf fullProps) 0 \<noteq> [] \<and>
   (\<exists>lo. - 2 \<le> lo \<and>
      occupiedRows (board (run fullProps fullRandom (startGame fullProps fullRandom)
                             [KeyDown Space, DropTimer, KeyDown Space, KeyDown Space])) 0
        = [lo .. 2]) \<and>
   occupiedRows (board (run fullProps fullRandom (startGame fullProps fullRandom)
                          [KeyDown Space, DropTimer, KeyDown Space, KeyDown Space])) 0
     = [0, 1, 2]"
proof -
  have cs: "columnHexes (hexesOf fullProps) 0 \<noteq> [] \<and>
            r (hd (columnHexes (hexesOf fullProps) 0)) = - 2 \<and>
            r (last (columnHexes (hexesOf fullProps) 0)) = 2"
    by code_simp
  have rows: "occupiedRows (board (run fullProps fullRandom (startGame fullProps fullRandom)
                          [KeyDown Space, DropTimer, KeyDown Space, KeyDown Space])) 0
                = [0, 1, 2]"
    by code_simp
  from column_stack [of fullProps 0 fullRandom
                       "[KeyDown Space, DropTimer, KeyDown Space, KeyDown Space]"] cs
  have "\<exists>lo. - 2 \<le> lo \<and>
      occupiedRows (board (run fullProps fullRandom (startGame fullProps fullRandom)
                             [KeyDown Space, DropTimer, KeyDown Space, KeyDown Space])) 0
        = [lo .. 2]"
    by simp
  with cs rows show ?thesis by blast
qed

end
